theory Spec2Isabelle
  imports Main "HOL-Library.Word"
begin

section \<open>The incident reporting system of \<^verbatim>\<open>src/main.c\<close>\<close>

text \<open>
  The program keeps its records in a global array of \<^verbatim>\<open>MAX_INCIDENTS\<close> structs and a
  global count, mirrors every new record as one line of the text file
  \<^verbatim>\<open>incidents.txt\<close>, and reads that file back once at start-up. The model below follows
  the C text function by function. The C library calls the program makes
  (\<^verbatim>\<open>fgets\<close>, \<^verbatim>\<open>strlen\<close>, \<^verbatim>\<open>sscanf\<close>, \<^verbatim>\<open>fprintf\<close>, \<^verbatim>\<open>tolower\<close>, \<^verbatim>\<open>strstr\<close>) are
  modelled after ISO C for the "C" locale, restricted to the format strings that occur
  in the source.
\<close>

subsection \<open>Constants (the \<^verbatim>\<open>#define\<close> lines)\<close>

definition MAX_INCIDENTS :: nat where "MAX_INCIDENTS = 100"
definition MAX_STRING_LENGTH :: nat where "MAX_STRING_LENGTH = 100"
definition MAX_AREA_LENGTH :: nat where "MAX_AREA_LENGTH = 50"
definition MAX_TYPE_LENGTH :: nat where "MAX_TYPE_LENGTH = 50"
definition MAX_TIME_LENGTH :: nat where "MAX_TIME_LENGTH = 20"

text \<open>The range of the C type \<^verbatim>\<open>int\<close> (32 bits, two's complement).\<close>

definition INT_MIN :: int where "INT_MIN = - 2147483648"
definition INT_MAX :: int where "INT_MAX = 2147483647"

subsection \<open>\<^verbatim>\<open>struct Incident\<close>\<close>

text \<open>
  A value of C type \<^verbatim>\<open>int\<close> is a 32-bit word read through \<open>sint\<close>. Addition wraps
  around, which is what \<^verbatim>\<open>maxId + 1\<close> yields on two's complement hardware (ISO C
  leaves the overflow undefined); results that depend on it say so. A \<^verbatim>\<open>char\<close> array
  field holds a C string: the model keeps the characters before the terminating NUL,
  so a field of the model never contains NUL and a field of declared size \<open>n\<close> holds
  at most \<open>n - 1\<close> characters.
\<close>

type_synonym c_int = "32 word"

record incident =
  area :: string
  type :: string
  time :: string
  id :: c_int

definition NUL :: char where "NUL = CHR 0x00"
definition NL :: char where "NL = CHR 0x0A"

definition c_string :: "nat \<Rightarrow> string \<Rightarrow> bool" where
  "c_string cap s = (NUL \<notin> set s \<and> length s < cap)"

subsection \<open>Character classes of \<^verbatim>\<open>ctype.h\<close> in the "C" locale\<close>

text \<open>
  Characters are bytes, compared by their codes. \<open>tolower\<close> changes the 26 upper-case
  letters and nothing else.
\<close>

definition isspace :: "char \<Rightarrow> bool" where
  "isspace c = (c = CHR '' '' \<or> (9 \<le> (of_char c :: nat) \<and> (of_char c :: nat) \<le> 13))"

definition isdigit :: "char \<Rightarrow> bool" where
  "isdigit c = (48 \<le> (of_char c :: nat) \<and> (of_char c :: nat) \<le> 57)"

definition isupper :: "char \<Rightarrow> bool" where
  "isupper c = (65 \<le> (of_char c :: nat) \<and> (of_char c :: nat) \<le> 90)"

definition tolower :: "char \<Rightarrow> char" where
  "tolower c = (if isupper c then char_of ((of_char c :: nat) + 32) else c)"

subsection \<open>The directives of \<^verbatim>\<open>sscanf\<close> that the program uses\<close>

text \<open>
  ISO C leaves two things undefined that the program's \<^verbatim>\<open>sscanf\<close> calls can run into:
  a \<^verbatim>\<open>%d\<close> whose value does not fit an \<^verbatim>\<open>int\<close>, and a \<^verbatim>\<open>%[\<close> without a field width
  whose input item, with its terminating NUL, is longer than the array it is stored in.
  The model reports both as values instead of guessing what the machine does.
\<close>

datatype undefined_behaviour = IntConversionOverflow | BufferOverflow

datatype 'a conv =
    InputFailure
  | MatchFailure
  | Undefined undefined_behaviour
  | Converted 'a string

definition dec_value :: "string \<Rightarrow> int" where
  "dec_value ds = foldl (\<lambda>a c. 10 * a + (of_char c - 48)) 0 ds"

text \<open>
  \<^verbatim>\<open>%d\<close>: skip white space, then an optional sign and a non-empty run of decimal
  digits, as \<^verbatim>\<open>strtol\<close> with base 10 reads them. The second component of \<open>Converted\<close> is
  the input left after the item.
\<close>

definition scan_d :: "string \<Rightarrow> c_int conv" where
  "scan_d s =
     (case dropWhile isspace s of
        [] \<Rightarrow> InputFailure
      | c # cs \<Rightarrow>
          (let body = (if c = CHR ''-'' \<or> c = CHR ''+'' then cs else c # cs);
               ds = takeWhile isdigit body;
               v = (if c = CHR ''-'' then - dec_value ds else dec_value ds)
           in if ds = [] then MatchFailure
              else if INT_MIN \<le> v \<and> v \<le> INT_MAX
                then Converted (word_of_int v) (dropWhile isdigit body)
              else Undefined IntConversionOverflow))"

text \<open>An ordinary character of the format: the next input character must be that one.\<close>

definition scan_lit :: "char \<Rightarrow> string \<Rightarrow> string option" where
  "scan_lit c s = (case s of [] \<Rightarrow> None | x # xs \<Rightarrow> if x = c then Some xs else None)"

text \<open>
  \<^verbatim>\<open>%[^c]\<close> stored into a \<^verbatim>\<open>char\<close> array of \<open>cap\<close> bytes: the longest non-empty run of
  characters other than \<open>c\<close>, with no white space skipped and no width limit.
\<close>

definition scan_exclude :: "char \<Rightarrow> nat \<Rightarrow> string \<Rightarrow> string conv" where
  "scan_exclude c cap s =
     (let item = takeWhile (\<lambda>x. x \<noteq> c) s
      in if s = [] then InputFailure
         else if item = [] then MatchFailure
         else if cap \<le> length item then Undefined BufferOverflow
         else Converted item (dropWhile (\<lambda>x. x \<noteq> c) s))"

text \<open>
  What \<^verbatim>\<open>sscanf\<close> returns when a directive after the first conversion stops the scan:
  the number of items assigned so far, with the struct as written so far.
\<close>

definition conv_or_stop ::
  "'a conv \<Rightarrow> int \<times> incident \<Rightarrow>
   ('a \<Rightarrow> string \<Rightarrow> undefined_behaviour + int \<times> incident) \<Rightarrow>
   undefined_behaviour + int \<times> incident" where
  "conv_or_stop r stop k =
     (case r of
        InputFailure \<Rightarrow> Inr stop
      | MatchFailure \<Rightarrow> Inr stop
      | Undefined u \<Rightarrow> Inl u
      | Converted v rest \<Rightarrow> k v rest)"

definition lit_or_stop ::
  "string option \<Rightarrow> int \<times> incident \<Rightarrow>
   (string \<Rightarrow> undefined_behaviour + int \<times> incident) \<Rightarrow>
   undefined_behaviour + int \<times> incident" where
  "lit_or_stop r stop k = (case r of None \<Rightarrow> Inr stop | Some rest \<Rightarrow> k rest)"

text \<open>
  \<^verbatim>\<open>sscanf(line, "%d|%[^|]|%[^|]|%[^\n]", &slot.id, slot.area, slot.type, slot.time)\<close>.
  The result is the return value together with the struct after the assignments made;
  \<open>- 1\<close> is \<^verbatim>\<open>EOF\<close>, returned when the input ends before the first conversion.
\<close>

definition sscanf_incident ::
  "string \<Rightarrow> incident \<Rightarrow> undefined_behaviour + int \<times> incident" where
  "sscanf_incident line slot =
     (case scan_d line of
        InputFailure \<Rightarrow> Inr (- 1, slot)
      | MatchFailure \<Rightarrow> Inr (0, slot)
      | Undefined u \<Rightarrow> Inl u
      | Converted v r1 \<Rightarrow>
          (let s1 = slot\<lparr>id := v\<rparr> in
           lit_or_stop (scan_lit CHR ''|'' r1) (1, s1) (\<lambda>r2.
           conv_or_stop (scan_exclude CHR ''|'' MAX_AREA_LENGTH r2) (1, s1) (\<lambda>a r3.
           let s2 = s1\<lparr>area := a\<rparr> in
           lit_or_stop (scan_lit CHR ''|'' r3) (2, s2) (\<lambda>r4.
           conv_or_stop (scan_exclude CHR ''|'' MAX_TYPE_LENGTH r4) (2, s2) (\<lambda>t r5.
           let s3 = s2\<lparr>type := t\<rparr> in
           lit_or_stop (scan_lit CHR ''|'' r5) (3, s3) (\<lambda>r6.
           conv_or_stop (scan_exclude NL MAX_TIME_LENGTH r6) (3, s3) (\<lambda>tm r7.
           Inr (4, s3\<lparr>time := tm\<rparr>)))))))))"

subsection \<open>\<^verbatim>\<open>isValidTimeFormat\<close>\<close>

text \<open>
  \<^verbatim>\<open>sscanf(time, "%d:%d%c", &hour, &minute, &extra)\<close>: the return value and the two
  integers, each present once assigned. \<^verbatim>\<open>%c\<close> takes the next character, if there is one.
\<close>

definition sscanf_time ::
  "string \<Rightarrow> undefined_behaviour + int \<times> c_int option \<times> c_int option" where
  "sscanf_time s =
     (case scan_d s of
        InputFailure \<Rightarrow> Inr (- 1, None, None)
      | MatchFailure \<Rightarrow> Inr (0, None, None)
      | Undefined u \<Rightarrow> Inl u
      | Converted h r1 \<Rightarrow>
          (case scan_lit CHR '':'' r1 of
             None \<Rightarrow> Inr (1, Some h, None)
           | Some r2 \<Rightarrow>
               (case scan_d r2 of
                  InputFailure \<Rightarrow> Inr (1, Some h, None)
                | MatchFailure \<Rightarrow> Inr (1, Some h, None)
                | Undefined u \<Rightarrow> Inl u
                | Converted m r3 \<Rightarrow>
                    (case r3 of
                       [] \<Rightarrow> Inr (2, Some h, Some m)
                     | extra # r4 \<Rightarrow> Inr (3, Some h, Some m)))))"

text \<open>The C function returns 1 or 0; the model returns \<open>True\<close> for 1.\<close>

definition isValidTimeFormat :: "string \<Rightarrow> undefined_behaviour + bool" where
  "isValidTimeFormat tm =
     (case sscanf_time tm of
        Inl u \<Rightarrow> Inl u
      | Inr (n, hour, minute) \<Rightarrow>
          (if n \<noteq> 2 then Inr False
           else case (hour, minute) of
                  (Some h, Some m) \<Rightarrow>
                    (if sint h < 0 \<or> sint h > 23 \<or> sint m < 0 \<or> sint m > 59
                     then Inr False else Inr True)
                | _ \<Rightarrow> Inr False))"

subsection \<open>The store file and the program state\<close>

text \<open>
  \<open>incidents\<close> is the global array and \<open>incidentCount\<close> the global count (an \<^verbatim>\<open>int\<close>
  that the program keeps between 0 and \<^verbatim>\<open>MAX_INCIDENTS\<close>, hence a \<open>nat\<close> here).
  \<open>data_file\<close> is the content of \<^verbatim>\<open>incidents.txt\<close>, \<open>None\<close> while the file does not
  exist; \<open>read_ok\<close> and \<open>append_ok\<close> say whether \<^verbatim>\<open>fopen\<close> would succeed in mode
  \<^verbatim>\<open>"r"\<close> on an existing file and in mode \<^verbatim>\<open>"a"\<close>.
\<close>

record world =
  incidents :: "incident list"
  incidentCount :: nat
  data_file :: "string option"
  read_ok :: bool
  append_ok :: bool

text \<open>The records the program treats as stored: the first \<open>incidentCount\<close> slots.\<close>

definition collection :: "world \<Rightarrow> incident list" where
  "collection w = take (incidentCount w) (incidents w)"

text \<open>What the program prints, line by line, named after the \<^verbatim>\<open>printf\<close> calls.\<close>

datatype event =
    MaxIncidentsError
  | OpenWriteError
  | ReportedOk c_int
  | NoIncidentsYet
  | FilterTitle string
  | TableHeader
  | Row incident
  | NoneFoundInArea
  | NoneFoundOfType

text \<open>\<^verbatim>\<open>fopen(DATA_FILE, "r")\<close>: the stream's content, \<open>None\<close> for \<^verbatim>\<open>NULL\<close>.\<close>

definition fopen_r :: "world \<Rightarrow> string option" where
  "fopen_r w = (if read_ok w then data_file w else None)"

text \<open>
  \<^verbatim>\<open>fgets(line, n, file)\<close>: at most \<open>n - 1\<close> characters, stopping after a newline;
  \<^verbatim>\<open>NULL\<close> at the end of the file. The result pairs the characters read with the rest
  of the stream.
\<close>

fun fgets_chars :: "nat \<Rightarrow> string \<Rightarrow> string \<times> string" where
  "fgets_chars 0 s = ([], s)"
| "fgets_chars (Suc k) [] = ([], [])"
| "fgets_chars (Suc k) (c # cs) =
     (if c = NL then ([c], cs)
      else (let (l, r) = fgets_chars k cs in (c # l, r)))"

definition fgets :: "nat \<Rightarrow> string \<Rightarrow> (string \<times> string) option" where
  "fgets n s = (if s = [] then None else Some (fgets_chars (n - 1) s))"

text \<open>The C string a buffer holds: the characters before the first NUL.\<close>

definition c_str :: "string \<Rightarrow> string" where
  "c_str buf = takeWhile (\<lambda>c. c \<noteq> NUL) buf"

text \<open>
  \<^verbatim>\<open>len = strlen(line); if (len > 0 && line[len-1] == '\n') line[len-1] = '\0';\<close>
\<close>

definition strip_newline :: "string \<Rightarrow> string" where
  "strip_newline buf =
     (let s = c_str buf in if s \<noteq> [] \<and> last s = NL then butlast s else s)"

subsection \<open>\<^verbatim>\<open>readIncidentsFromFile\<close>\<close>

lemma fgets_chars_length:
  "length (fst (fgets_chars k s)) + length (snd (fgets_chars k s)) = length s"
  by (induction k s rule: fgets_chars.induct) (auto split: prod.splits)

lemma fgets_chars_progress:
  "s \<noteq> [] \<Longrightarrow> length (snd (fgets_chars (Suc k) s)) < length s"
proof (cases s)
  case Nil
  assume "s \<noteq> []"
  with Nil show ?thesis by simp
next
  case (Cons c cs)
  have "length (snd (fgets_chars k cs)) \<le> length cs"
    using fgets_chars_length [of k cs] by linarith
  with Cons show ?thesis by (auto split: prod.splits)
qed

lemma fgets_shorter:
  "fgets (MAX_STRING_LENGTH * 3) file = Some (line, rest) \<Longrightarrow> length rest < length file"
proof -
  assume a: "fgets (MAX_STRING_LENGTH * 3) file = Some (line, rest)"
  have eq: "MAX_STRING_LENGTH * 3 - 1 = Suc 298"
    by (simp add: MAX_STRING_LENGTH_def)
  from a have "file \<noteq> [] \<and> fgets_chars (Suc 298) file = (line, rest)"
    unfolding fgets_def eq by (simp split: if_splits)
  then have ne: "file \<noteq> []" and r: "rest = snd (fgets_chars (Suc 298) file)"
    by simp_all
  show ?thesis unfolding r by (rule fgets_chars_progress [OF ne])
qed

text \<open>
  The \<^verbatim>\<open>while\<close> loop: \<open>incs\<close> is the array, \<open>count\<close> the local counter, \<open>file\<close> what is
  left of the stream. \<^verbatim>\<open>sscanf\<close> writes into slot \<open>count\<close> whether or not it converts
  all four items; the counter moves on only when it returns 4.
\<close>

function readLoop ::
  "incident list \<Rightarrow> nat \<Rightarrow> string \<Rightarrow> undefined_behaviour + incident list \<times> nat" where
  "readLoop incs count file =
     (if count < MAX_INCIDENTS then
        (case fgets (MAX_STRING_LENGTH * 3) file of
           None \<Rightarrow> Inr (incs, count)
         | Some (line, rest) \<Rightarrow>
             (case sscanf_incident (strip_newline line) (incs ! count) of
                Inl u \<Rightarrow> Inl u
              | Inr (n, slot) \<Rightarrow>
                  readLoop (incs[count := slot]) (if n = 4 then count + 1 else count) rest))
      else Inr (incs, count))"
  by pat_completeness auto
termination
  by (relation "measure (\<lambda>(incs, count, file). length file)")
     (auto dest: fgets_shorter)

declare readLoop.simps [simp del]

text \<open>
  The function returns the count and leaves the records in the caller's array; the
  model returns the array with the count.
\<close>

definition readIncidentsFromFile ::
  "world \<Rightarrow> undefined_behaviour + incident list \<times> nat" where
  "readIncidentsFromFile w =
     (case fopen_r w of
        None \<Rightarrow> Inr (incidents w, 0)
      | Some file \<Rightarrow> readLoop (incidents w) 0 file)"

text \<open>
  The first statement of \<^verbatim>\<open>main\<close>:
  \<^verbatim>\<open>incidentCount = readIncidentsFromFile(incidents);\<close>
\<close>

definition main_load :: "world \<Rightarrow> undefined_behaviour + world" where
  "main_load w =
     (case readIncidentsFromFile w of
        Inl u \<Rightarrow> Inl u
      | Inr (incs, n) \<Rightarrow> Inr (w\<lparr>incidents := incs, incidentCount := n\<rparr>))"

text \<open>The records a load leaves in the collection.\<close>

definition loaded :: "world \<Rightarrow> undefined_behaviour + incident list" where
  "loaded w =
     (case readIncidentsFromFile w of
        Inl u \<Rightarrow> Inl u
      | Inr (incs, n) \<Rightarrow> Inr (take n incs))"

subsection \<open>\<^verbatim>\<open>writeIncidentToFile\<close>\<close>

text \<open>\<^verbatim>\<open>%d\<close> of \<^verbatim>\<open>fprintf\<close>: the decimal digits, with a minus sign for a negative value.\<close>

function dec_digits :: "int \<Rightarrow> string" where
  "dec_digits n =
     (if n < 10 then [char_of (48 + n)]
      else dec_digits (n div 10) @ [char_of (48 + n mod 10)])"
  by pat_completeness auto
termination
  by (relation "measure nat") auto

declare dec_digits.simps [simp del]

definition print_d :: "c_int \<Rightarrow> string" where
  "print_d v =
     (if sint v < 0 then CHR ''-'' # dec_digits (- sint v)
      else dec_digits (sint v))"

text \<open>\<^verbatim>\<open>fprintf(file, "%d|%s|%s|%s\n", id, area, type, time)\<close>\<close>

definition format_incident :: "incident \<Rightarrow> string" where
  "format_incident x =
     print_d (id x) @ [CHR ''|''] @ area x @ [CHR ''|''] @ type x @ [CHR ''|''] @ time x @ [NL]"

text \<open>
  Mode \<^verbatim>\<open>"a"\<close> creates a missing file and writes at its end. The program does not
  look at what \<^verbatim>\<open>fprintf\<close> and \<^verbatim>\<open>fclose\<close> return; the model takes a write to an opened
  file to succeed.
\<close>

definition writeIncidentToFile :: "world \<Rightarrow> incident \<Rightarrow> event list \<times> world" where
  "writeIncidentToFile w incident =
     (if \<not> append_ok w then ([OpenWriteError], w)
      else ([], w\<lparr>data_file :=
                   Some ((case data_file w of None \<Rightarrow> [] | Some f \<Rightarrow> f)
                         @ format_incident incident)\<rparr>))"

subsection \<open>\<^verbatim>\<open>getNextIncidentId\<close> and \<^verbatim>\<open>addIncident\<close>\<close>

text \<open>The \<^verbatim>\<open>for\<close> loop over the stored slots, with \<^verbatim>\<open>int\<close> comparison.\<close>

fun max_id_loop :: "c_int \<Rightarrow> incident list \<Rightarrow> c_int" where
  "max_id_loop maxId [] = maxId"
| "max_id_loop maxId (r # rs) =
     max_id_loop (if sint (id r) > sint maxId then id r else maxId) rs"

definition getNextIncidentId :: "world \<Rightarrow> c_int" where
  "getNextIncidentId w = max_id_loop 0 (collection w) + 1"

text \<open>
  \<open>area_in\<close>, \<open>type_in\<close> and \<open>time_in\<close> are what \<^verbatim>\<open>validateStringInput\<close> and
  \<^verbatim>\<open>validateTimeInput\<close> leave in the three buffers of \<^verbatim>\<open>newIncident\<close>; the prompts
  themselves belong to the terminal dialogue and are not modelled.
\<close>

definition addIncident ::
  "world \<Rightarrow> string \<Rightarrow> string \<Rightarrow> string \<Rightarrow> event list \<times> world" where
  "addIncident w area_in type_in time_in =
     (if incidentCount w \<ge> MAX_INCIDENTS then ([MaxIncidentsError], w)
      else
        (let newIncident =
               \<lparr>area = area_in, type = type_in, time = time_in, id = getNextIncidentId w\<rparr>;
             w1 = w\<lparr>incidents := (incidents w)[incidentCount w := newIncident],
                    incidentCount := incidentCount w + 1\<rparr>;
             (warn, w2) = writeIncidentToFile w1 newIncident
         in (warn @ [ReportedOk (id newIncident)], w2)))"

text \<open>The user reporting one incident after another (menu choice 1, repeated).\<close>

fun addIncidents :: "world \<Rightarrow> (string \<times> string \<times> string) list \<Rightarrow> world" where
  "addIncidents w [] = w"
| "addIncidents w ((a, t, tm) # rest) = addIncidents (snd (addIncident w a t tm)) rest"

subsection \<open>\<^verbatim>\<open>strContains\<close> and the two filters\<close>

text \<open>
  \<^verbatim>\<open>strstr(h, n)\<close>: the first position of \<open>h\<close> at which \<open>n\<close> starts, as the rest of \<open>h\<close>
  from there; \<open>None\<close> for \<^verbatim>\<open>NULL\<close>.
\<close>

fun starts_with :: "string \<Rightarrow> string \<Rightarrow> bool" where
  "starts_with h [] = True"
| "starts_with [] (c # n) = False"
| "starts_with (x # h) (c # n) = (x = c \<and> starts_with h n)"

fun strstr :: "string \<Rightarrow> string \<Rightarrow> string option" where
  "strstr [] n = (if n = [] then Some [] else None)"
| "strstr (x # h) n = (if starts_with (x # h) n then Some (x # h) else strstr h n)"

text \<open>
  The two copy loops: \<^verbatim>\<open>for (i = 0; i < strlen(s) && i < MAX_STRING_LENGTH - 1; i++)\<close>
  with \<^verbatim>\<open>tolower\<close> on each character.
\<close>

definition lower_copy :: "string \<Rightarrow> string" where
  "lower_copy s = map tolower (take (MAX_STRING_LENGTH - 1) s)"

definition strContains :: "string \<Rightarrow> string \<Rightarrow> bool" where
  "strContains str substr = (strstr (lower_copy str) (lower_copy substr) \<noteq> None)"

text \<open>The loops that print the matching rows, in slot order.\<close>

fun area_rows :: "string \<Rightarrow> incident list \<Rightarrow> event list" where
  "area_rows searchArea [] = []"
| "area_rows searchArea (r # rs) =
     (if strContains (area r) searchArea then Row r # area_rows searchArea rs
      else area_rows searchArea rs)"

fun type_rows :: "string \<Rightarrow> incident list \<Rightarrow> event list" where
  "type_rows searchType [] = []"
| "type_rows searchType (r # rs) =
     (if strContains (type r) searchType then Row r # type_rows searchType rs
      else type_rows searchType rs)"

text \<open>
  \<open>searchArea\<close> and \<open>searchType\<close> are what \<^verbatim>\<open>validateStringInput\<close> leaves in the search
  buffer. \<^verbatim>\<open>found\<close> is set exactly when a row is printed.
\<close>

definition viewIncidentsByArea :: "world \<Rightarrow> string \<Rightarrow> event list" where
  "viewIncidentsByArea w searchArea =
     (if incidentCount w = 0 then [NoIncidentsYet]
      else
        (let found = area_rows searchArea (collection w)
         in [FilterTitle searchArea, TableHeader] @ found
            @ (if found = [] then [NoneFoundInArea] else [])))"

definition viewIncidentsByType :: "world \<Rightarrow> string \<Rightarrow> event list" where
  "viewIncidentsByType w searchType =
     (if incidentCount w = 0 then [NoIncidentsYet]
      else
        (let found = type_rows searchType (collection w)
         in [FilterTitle searchType, TableHeader] @ found
            @ (if found = [] then [NoneFoundOfType] else [])))"

text \<open>The incidents whose rows a filter printed, in the order printed.\<close>

fun rows :: "event list \<Rightarrow> incident list" where
  "rows [] = []"
| "rows (Row r # es) = r # rows es"
| "rows (e # es) = rows es"

subsection \<open>Conditions used in the statements\<close>

text \<open>
  A record that one line of the store can carry: every field is a non-empty C string
  that fits its array and has no newline in it, and neither \<open>area\<close> nor \<open>type\<close>
  contains the field separator.
\<close>

definition storable :: "incident \<Rightarrow> bool" where
  "storable x =
     (area x \<noteq> [] \<and> c_string MAX_AREA_LENGTH (area x)
        \<and> CHR ''|'' \<notin> set (area x) \<and> NL \<notin> set (area x)
      \<and> type x \<noteq> [] \<and> c_string MAX_TYPE_LENGTH (type x)
        \<and> CHR ''|'' \<notin> set (type x) \<and> NL \<notin> set (type x)
      \<and> time x \<noteq> [] \<and> c_string MAX_TIME_LENGTH (time x) \<and> NL \<notin> set (time x))"

text \<open>A store made of complete lines: no file, an empty file, or a last character newline.\<close>

definition line_terminated :: "string option \<Rightarrow> bool" where
  "line_terminated f = (case f of None \<Rightarrow> True | Some s \<Rightarrow> s = [] \<or> last s = NL)"

text \<open>The line \<^verbatim>\<open>fprintf\<close> writes for a record, without its newline.\<close>

definition format_fields :: "incident \<Rightarrow> string" where
  "format_fields x =
     print_d (id x) @ [CHR ''|''] @ area x @ [CHR ''|''] @ type x @ [CHR ''|''] @ time x"

text \<open>A number below 100 written with two decimal digits, as in \<^verbatim>\<open>HH:MM\<close>.\<close>

definition two_digits :: "int \<Rightarrow> string" where
  "two_digits n = [char_of (48 + n div 10), char_of (48 + n mod 10)]"

subsection \<open>Example states\<close>

text \<open>
  The globals have static storage, so before \<^verbatim>\<open>main\<close> runs every slot of the array is
  zero-filled and the count is 0. \<open>fresh_world\<close> is that state with no store file yet.
  The other definitions are the concrete stores and states the results below are
  evaluated on.
\<close>

definition blank :: incident where
  "blank = \<lparr>area = [], type = [], time = [], id = 0\<rparr>"

definition fresh_world :: world where
  "fresh_world =
     \<lparr>incidents = replicate MAX_INCIDENTS blank, incidentCount = 0,
      data_file = None, read_ok = True, append_ok = True\<rparr>"

definition hundred_reports :: "(string \<times> string \<times> string) list" where
  "hundred_reports = replicate 100 (''Main St'', ''pothole'', ''08:15'')"

definition full_world :: world where
  "full_world = addIncidents fresh_world hundred_reports"

definition max_id_file :: string where
  "max_id_file = ''2147483647|Main St|pothole|08:15'' @ [NL]"

definition max_id_world :: world where
  "max_id_world =
     fresh_world\<lparr>incidents := (incidents fresh_world)
                    [0 := \<lparr>area = ''Main St'', type = ''pothole'', time = ''08:15'', id = 2147483647\<rparr>],
                 incidentCount := 1, data_file := Some max_id_file\<rparr>"

definition negative_id_file :: string where
  "negative_id_file = ''-5|Main St|pothole|08:15'' @ [NL]"

definition negative_id_world :: world where
  "negative_id_world =
     fresh_world\<lparr>incidents := (incidents fresh_world)
                    [0 := \<lparr>area = ''Main St'', type = ''pothole'', time = ''08:15'', id = - 5\<rparr>],
                 incidentCount := 1, data_file := Some negative_id_file\<rparr>"

definition read_only_world :: world where
  "read_only_world = fresh_world\<lparr>append_ok := False\<rparr>"

definition shuffled_ids_file :: string where
  "shuffled_ids_file =
     ''7|Main St|pothole|08:15'' @ [NL] @ ''3|Oak Ave|streetlight|21:40'' @ [NL]
     @ ''7|Elm Rd|flooding|06:05'' @ [NL]"

definition shuffled_ids_world :: world where
  "shuffled_ids_world =
     fresh_world\<lparr>incidents := (incidents fresh_world)
                    [0 := \<lparr>area = ''Main St'', type = ''pothole'', time = ''08:15'', id = 7\<rparr>,
                     1 := \<lparr>area = ''Oak Ave'', type = ''streetlight'', time = ''21:40'', id = 3\<rparr>,
                     2 := \<lparr>area = ''Elm Rd'', type = ''flooding'', time = ''06:05'', id = 7\<rparr>],
                 incidentCount := 3, data_file := Some shuffled_ids_file\<rparr>"

definition three_reports :: "(string \<times> string \<times> string) list" where
  "three_reports =
     [(''Main St'', ''pothole'', ''08:15''), (''Oak Ave'', ''streetlight'', ''21:40''),
      (''Elm Rd'', ''flooding'', ''06:05'')]"

definition unvalidated_file :: string where
  "unvalidated_file =
     ''0|Main St|pothole|whenever'' @ [NL] @ ''-7|Oak Ave|streetlight|25:99'' @ [NL]"

definition unvalidated_records :: "incident list" where
  "unvalidated_records =
     [\<lparr>area = ''Main St'', type = ''pothole'', time = ''whenever'', id = 0\<rparr>,
      \<lparr>area = ''Oak Ave'', type = ''streetlight'', time = ''25:99'', id = - 7\<rparr>]"

definition newline_incident :: incident where
  "newline_incident =
     \<lparr>area = ''Main'' @ [NL] @ ''St'', type = ''pothole'', time = ''08:15'', id = 1\<rparr>"

definition unterminated_world :: world where
  "unterminated_world = fresh_world\<lparr>data_file := Some ''1|Main St|pothole|08:15''\<rparr>"

definition first_incident :: incident where
  "first_incident = \<lparr>area = ''Main St'', type = ''pothole'', time = ''08:15'', id = 1\<rparr>"

definition second_incident :: incident where
  "second_incident = \<lparr>area = ''A4'', type = ''ice'', time = ''21:40'', id = 2\<rparr>"

definition one_line_world :: world where
  "one_line_world = fresh_world\<lparr>data_file := Some (''1|Main St|pothole|08:15'' @ [NL])\<rparr>"

definition overflow_file :: string where
  "overflow_file = ''1|x|y|non-functional streetlight|14:30'' @ [NL]"

definition two_reports :: "(string \<times> string \<times> string) list" where
  "two_reports = [(''Main St'', ''pothole'', ''08:15''), (''Oak Ave'', ''streetlight'', ''21:40'')]"

definition two_streets_world :: world where
  "two_streets_world = addIncidents fresh_world two_reports"

definition skip_file :: string where
  "skip_file = ''1|Main St|pothole|08:15'' @ [NL] @ ''2|Oak Ave|streetlight'' @ [NL]"

definition skip_first_file :: string where
  "skip_first_file = ''2|Oak Ave|streetlight'' @ [NL] @ ''1|Main St|pothole|08:15'' @ [NL]"

section \<open>Auxiliary facts\<close>

lemma sint_succ:
  fixes v :: c_int
  assumes "sint v < INT_MAX"
  shows "sint (v + 1) = sint v + 1"
proof -
  have lo: "- (2 ^ 31) \<le> sint v" using sint_ge [of v] by simp
  have hi: "sint v + 1 < 2 ^ 31" using assms by (simp add: INT_MAX_def)
  have "sint (v + 1) = signed_take_bit 31 (sint v + 1)"
    by (simp add: sint_word_add [where ?'a = 32, simplified] del: sint_word_add)
  also have "\<dots> = sint v + 1"
    using lo hi by (intro signed_take_bit_int_eq_self) simp_all
  finally show ?thesis .
qed

lemma sint_max_id_loop:
  "sint (max_id_loop m rs) = Max (insert (sint m) ((\<lambda>r. sint (id r)) ` set rs))"
proof (induction rs arbitrary: m)
  case Nil
  show ?case by simp
next
  case (Cons r rs)
  let ?S = "(\<lambda>r. sint (id r)) ` set rs"
  have fin: "finite ?S" by simp
  show ?case
  proof (cases "sint (id r) > sint m")
    case True
    then have "Max (insert (sint m) (insert (sint (id r)) ?S)) = Max (insert (sint (id r)) ?S)"
      using fin by (cases "?S = {}") (simp_all add: max_def)
    with True Cons.IH [of "id r"] show ?thesis by simp
  next
    case False
    then have "Max (insert (sint m) (insert (sint (id r)) ?S)) = Max (insert (sint m) ?S)"
      using fin by (cases "?S = {}") (auto simp: max_def insert_commute)
    with False Cons.IH [of m] show ?thesis by simp
  qed
qed

lemma max_id_loop_ge: "r \<in> set rs \<Longrightarrow> sint (id r) \<le> sint (max_id_loop m rs)"
  by (simp add: sint_max_id_loop)

lemma max_id_loop_nonneg: "0 \<le> sint m \<Longrightarrow> 0 \<le> sint (max_id_loop m rs)"
  by (induction rs arbitrary: m) auto

lemma addIncident_full:
  "incidentCount w \<ge> MAX_INCIDENTS \<Longrightarrow> addIncident w a t tm = ([MaxIncidentsError], w)"
  by (simp add: addIncident_def)

lemma addIncident_room:
  assumes "incidentCount w < MAX_INCIDENTS"
  shows "addIncident w a t tm =
     (let new = \<lparr>area = a, type = t, time = tm, id = getNextIncidentId w\<rparr>;
          w1 = w\<lparr>incidents := (incidents w)[incidentCount w := new],
                 incidentCount := incidentCount w + 1\<rparr>
      in if append_ok w
         then ([ReportedOk (getNextIncidentId w)],
               w1\<lparr>data_file := Some ((case data_file w of None \<Rightarrow> [] | Some f \<Rightarrow> f)
                                       @ format_incident new)\<rparr>)
         else ([OpenWriteError, ReportedOk (getNextIncidentId w)], w1))"
  using assms by (simp add: addIncident_def writeIncidentToFile_def Let_def)

lemma collection_after_add:
  assumes "incidentCount w < MAX_INCIDENTS" "length (incidents w) = MAX_INCIDENTS"
  shows "collection (snd (addIncident w a t tm)) =
         collection w @ [\<lparr>area = a, type = t, time = tm, id = getNextIncidentId w\<rparr>]"
  using assms
  by (simp add: addIncident_room Let_def collection_def take_Suc_conv_app_nth)

lemma count_after_add:
  "incidentCount (snd (addIncident w a t tm)) =
     (if incidentCount w < MAX_INCIDENTS then incidentCount w + 1 else incidentCount w)"
  by (simp add: addIncident_room addIncident_full Let_def)

lemma length_after_add:
  "length (incidents (snd (addIncident w a t tm))) = length (incidents w)"
  by (cases "incidentCount w < MAX_INCIDENTS") (simp_all add: addIncident_room addIncident_full Let_def)

lemma count_after_addIncidents:
  "incidentCount w \<le> MAX_INCIDENTS \<Longrightarrow>
   incidentCount (addIncidents w inputs) = min MAX_INCIDENTS (incidentCount w + length inputs)"
proof (induction inputs arbitrary: w)
  case Nil
  then show ?case by simp
next
  case (Cons x inputs)
  obtain a t tm where x: "x = (a, t, tm)" by (cases x) auto
  have le: "incidentCount (snd (addIncident w a t tm)) \<le> MAX_INCIDENTS"
    using Cons.prems by (simp add: count_after_add)
  show ?case using Cons.IH [OF le] Cons.prems
    by (simp add: x count_after_add)
qed

lemma reported_iff_room:
  "ReportedOk i \<in> set (fst (addIncident w a t tm)) \<longleftrightarrow>
   incidentCount w < MAX_INCIDENTS \<and> i = getNextIncidentId w"
  by (cases "incidentCount w < MAX_INCIDENTS")
     (auto simp: addIncident_room addIncident_full Let_def)

lemma ids_upto_max:
  assumes "map (\<lambda>r. sint (id r)) rs = map int [1..<Suc c]"
  shows "sint (max_id_loop 0 rs) = int c"
proof -
  have "(\<lambda>r. sint (id r)) ` set rs = set (map (\<lambda>r. sint (id r)) rs)"
    by (simp only: set_map)
  also have "\<dots> = int ` {1..<Suc c}"
    by (simp only: assms set_map set_upt)
  finally have S: "(\<lambda>r. sint (id r)) ` set rs = int ` {1..<Suc c}" .
  have "Max (insert 0 (int ` {1..<Suc c})) = int c"
  proof (rule Max_eqI)
    show "finite (insert 0 (int ` {1..<Suc c}))" by simp
    show "\<And>y. y \<in> insert 0 (int ` {1..<Suc c}) \<Longrightarrow> y \<le> int c" by auto
    show "int c \<in> insert 0 (int ` {1..<Suc c})"
    proof (cases "c = 0")
      case True
      then show ?thesis by simp
    next
      case False
      then have "c \<in> {1..<Suc c}" by simp
      then show ?thesis by blast
    qed
  qed
  then show ?thesis by (simp only: sint_max_id_loop S sint_0)
qed

lemma ids_after_addIncidents:
  assumes "length (incidents w) = MAX_INCIDENTS"
    "map (\<lambda>r. sint (id r)) (collection w) = map int [1..<Suc (incidentCount w)]"
    "incidentCount w + length inputs \<le> MAX_INCIDENTS"
  shows "map (\<lambda>r. sint (id r)) (collection (addIncidents w inputs)) =
         map int [1..<Suc (incidentCount w + length inputs)]"
  using assms
proof (induction inputs arbitrary: w)
  case Nil
  then show ?case by simp
next
  case (Cons x inputs)
  obtain a t tm where x: "x = (a, t, tm)" by (cases x) auto
  let ?w = "snd (addIncident w a t tm)"
  have room: "incidentCount w < MAX_INCIDENTS" using Cons.prems(3) by simp
  have m: "sint (max_id_loop 0 (collection w)) = int (incidentCount w)"
    by (rule ids_upto_max [OF Cons.prems(2)])
  then have "sint (max_id_loop 0 (collection w)) < INT_MAX"
    using room by (simp add: MAX_INCIDENTS_def INT_MAX_def)
  from sint_succ [OF this] m
  have next_id: "sint (getNextIncidentId w) = int (Suc (incidentCount w))"
    by (simp add: getNextIncidentId_def)
  have cnt: "incidentCount ?w = Suc (incidentCount w)"
    using room by (simp add: count_after_add)
  have ids: "map (\<lambda>r. sint (id r)) (collection ?w) = map int [1..<Suc (incidentCount ?w)]"
    using Cons.prems(2) next_id
    by (simp add: collection_after_add [OF room Cons.prems(1)] cnt)
  have len: "length (incidents ?w) = MAX_INCIDENTS"
    using Cons.prems(1) by (simp add: length_after_add)
  have "incidentCount ?w + length inputs \<le> MAX_INCIDENTS"
    using Cons.prems(3) by (simp add: cnt)
  from Cons.IH [OF len ids this] show ?case by (simp add: x cnt)
qed

lemma take_one_update: "xs \<noteq> [] \<Longrightarrow> take (Suc 0) (xs[0 := x]) = [x]"
  by (cases xs) simp_all

lemma max_below_INT_MAX:
  assumes "\<forall>r\<in>set rs. sint (id r) < INT_MAX"
  shows "sint (max_id_loop 0 rs) < INT_MAX"
proof -
  have "Max (insert 0 ((\<lambda>r. sint (id r)) ` set rs)) < INT_MAX"
    using assms by (subst Max_less_iff) (auto simp: INT_MAX_def)
  then show ?thesis by (simp add: sint_max_id_loop)
qed

lemma sint_next_id:
  assumes "\<forall>r\<in>set (collection w). sint (id r) < INT_MAX"
  shows "sint (getNextIncidentId w) = 1 + sint (max_id_loop 0 (collection w))"
  using sint_succ [OF max_below_INT_MAX [OF assms]] by (simp add: getNextIncidentId_def)

lemma span_run:
  assumes "\<forall>x\<in>set xs. P x" and "ys = [] \<or> \<not> P (hd ys)"
  shows "takeWhile P (xs @ ys) = xs" and "dropWhile P (xs @ ys) = ys"
proof -
  have t: "takeWhile P ys = []" and d: "dropWhile P ys = ys"
    using assms(2) by (cases ys; simp)+
  show "takeWhile P (xs @ ys) = xs" using assms(1) t by (simp add: takeWhile_append2)
  show "dropWhile P (xs @ ys) = ys" using assms(1) d by (simp add: dropWhile_append2)
qed

lemma digit_char_code:
  assumes "0 \<le> d" "d < 10"
  shows "(of_char (char_of (48 + d :: int)) :: int) = 48 + d"
  using assms by (simp add: of_char_of)

lemma digit_char_isdigit:
  assumes "0 \<le> d" "d < 10"
  shows "isdigit (char_of (48 + d :: int))"
proof -
  have "(of_char (char_of (48 + d)) :: nat) = nat (of_char (char_of (48 + d)) :: int)"
    by (simp only: nat_of_char)
  also have "\<dots> = nat (48 + d)" by (simp only: digit_char_code [OF assms])
  finally have "(of_char (char_of (48 + d)) :: nat) = nat (48 + d)" .
  moreover have "48 \<le> nat (48 + d)" "nat (48 + d) \<le> 57" using assms by linarith+
  ultimately show ?thesis unfolding isdigit_def by simp
qed

lemma isdigit_not_isspace: "isdigit c \<Longrightarrow> \<not> isspace c"
  by (auto simp: isdigit_def isspace_def)

lemma isdigit_not_sign: "isdigit c \<Longrightarrow> c \<noteq> CHR ''-'' \<and> c \<noteq> CHR ''+''"
  by (auto simp: isdigit_def)

lemma dec_digits_nonempty: "dec_digits n \<noteq> []"
  by (subst dec_digits.simps) simp

lemma dec_digits_all_digits: "0 \<le> n \<Longrightarrow> \<forall>c\<in>set (dec_digits n). isdigit c"
proof (induction n rule: dec_digits.induct)
  case (1 n)
  show ?case
  proof (cases "n < 10")
    case True
    with "1.prems" show ?thesis
      by (subst dec_digits.simps) (simp add: digit_char_isdigit)
  next
    case False
    then have "0 \<le> n div 10" by simp
    from "1.IH" [OF False this] False show ?thesis
      by (subst dec_digits.simps) (simp add: digit_char_isdigit)
  qed
qed

lemma dec_value_snoc: "dec_value (ds @ [c]) = 10 * dec_value ds + (of_char c - 48)"
  by (simp add: dec_value_def)

lemma dec_value_dec_digits: "0 \<le> n \<Longrightarrow> dec_value (dec_digits n) = n"
proof (induction n rule: dec_digits.induct)
  case (1 n)
  show ?case
  proof (cases "n < 10")
    case True
    with "1.prems" show ?thesis
      by (subst dec_digits.simps) (simp add: dec_value_def digit_char_code)
  next
    case False
    then have "0 \<le> n div 10" by simp
    from "1.IH" [OF False this] False show ?thesis
      by (subst dec_digits.simps) (simp add: dec_value_snoc digit_char_code)
  qed
qed

lemma length_dec_digits: "0 \<le> n \<Longrightarrow> n < 10 ^ Suc k \<Longrightarrow> length (dec_digits n) \<le> Suc k"
proof (induction k arbitrary: n)
  case 0
  then show ?case by (subst dec_digits.simps) simp
next
  case (Suc k)
  show ?case
  proof (cases "n < 10")
    case True
    then show ?thesis by (subst dec_digits.simps) simp
  next
    case False
    have "n div 10 < 10 ^ Suc k" using Suc.prems(2) by simp
    moreover have "0 \<le> n div 10" using Suc.prems(1) by simp
    ultimately have "length (dec_digits (n div 10)) \<le> Suc k" by (intro Suc.IH)
    with False show ?thesis by (subst dec_digits.simps) simp
  qed
qed

lemma sint_range: "INT_MIN \<le> sint (v :: c_int) \<and> sint v \<le> INT_MAX"
  using sint_ge [of v] sint_lt [of v] by (simp add: INT_MIN_def INT_MAX_def)

lemma word_of_sint: "word_of_int (sint (v :: c_int)) = v"
  by simp

lemma length_print_d: "length (print_d v) \<le> 11"
proof -
  have r: "INT_MIN \<le> sint v \<and> sint v \<le> INT_MAX" by (rule sint_range)
  show ?thesis
  proof (cases "sint v < 0")
    case True
    have "length (dec_digits (- sint v)) \<le> Suc 9"
      using r True by (intro length_dec_digits) (simp_all add: INT_MIN_def)
    with True show ?thesis by (simp add: print_d_def)
  next
    case False
    have "length (dec_digits (sint v)) \<le> Suc 9"
      using r False by (intro length_dec_digits) (simp_all add: INT_MAX_def)
    with False show ?thesis by (simp add: print_d_def)
  qed
qed

lemma print_d_chars: "c \<in> set (print_d v) \<Longrightarrow> c = CHR ''-'' \<or> isdigit c"
  using dec_digits_all_digits [of "sint v"] dec_digits_all_digits [of "- sint v"]
  by (auto simp: print_d_def split: if_splits)

lemma scan_d_print_d:
  assumes "rest = [] \<or> \<not> isdigit (hd rest)"
  shows "scan_d (print_d v @ rest) = Converted v rest"
proof (cases "sint v < 0")
  case True
  let ?ds = "dec_digits (- sint v)"
  have dig: "\<forall>c\<in>set ?ds. isdigit c" using True by (intro dec_digits_all_digits) simp
  have val: "dec_value ?ds = - sint v" using True by (intro dec_value_dec_digits) simp
  have "\<not> isspace CHR ''-''" by (simp add: isspace_def)
  then have "dropWhile isspace (print_d v @ rest) = CHR ''-'' # (?ds @ rest)"
    using True by (simp add: print_d_def)
  then show ?thesis
    using span_run [OF dig assms] val dec_digits_nonempty [of "- sint v"] sint_range [of v]
    by (simp add: scan_d_def Let_def)
next
  case False
  let ?ds = "dec_digits (sint v)"
  have dig: "\<forall>c\<in>set ?ds. isdigit c" using False by (intro dec_digits_all_digits) simp
  have val: "dec_value ?ds = sint v" using False by (intro dec_value_dec_digits) simp
  obtain d ds where ds: "?ds = d # ds" using dec_digits_nonempty [of "sint v"] by (cases ?ds) auto
  have d: "isdigit d" using dig ds by simp
  have "dropWhile isspace (print_d v @ rest) = d # (ds @ rest)"
    using False ds isdigit_not_isspace [OF d] by (simp add: print_d_def)
  moreover have "takeWhile isdigit (d # (ds @ rest)) = ?ds"
    and "dropWhile isdigit (d # (ds @ rest)) = rest"
    using span_run [OF dig assms] ds by simp_all
  ultimately show ?thesis
    using val ds isdigit_not_sign [OF d] sint_range [of v]
    by (simp add: scan_d_def Let_def)
qed

lemma scan_exclude_run:
  assumes "s \<noteq> []" "c \<notin> set s" "length s < cap" "rest = [] \<or> hd rest = c"
  shows "scan_exclude c cap (s @ rest) = Converted s rest"
proof -
  have "takeWhile (\<lambda>x. x \<noteq> c) (s @ rest) = s" "dropWhile (\<lambda>x. x \<noteq> c) (s @ rest) = rest"
    using assms(2,4) by (auto intro!: span_run)
  then show ?thesis using assms(1,3) by (simp add: scan_exclude_def Let_def)
qed

lemma format_incident_fields: "format_incident x = format_fields x @ [NL]"
  by (simp add: format_incident_def format_fields_def)

lemma bar_not_digit: "\<not> isdigit CHR ''|''"
  by (simp add: isdigit_def)

lemma sscanf_incident_format_fields:
  assumes "storable x"
  shows "sscanf_incident (format_fields x) slot = Inr (4, x)"
proof -
  let ?r6 = "time x"
  let ?r5 = "CHR ''|'' # ?r6"
  let ?r4 = "type x @ ?r5"
  let ?r3 = "CHR ''|'' # ?r4"
  let ?r2 = "area x @ ?r3"
  let ?r1 = "CHR ''|'' # ?r2"
  have f: "format_fields x = print_d (id x) @ ?r1" by (simp add: format_fields_def)
  have d: "scan_d (print_d (id x) @ ?r1) = Converted (id x) ?r1"
    by (rule scan_d_print_d) (simp add: bar_not_digit)
  have a: "scan_exclude CHR ''|'' MAX_AREA_LENGTH ?r2 = Converted (area x) ?r3"
    using assms by (intro scan_exclude_run) (simp_all add: storable_def c_string_def)
  have t: "scan_exclude CHR ''|'' MAX_TYPE_LENGTH ?r4 = Converted (type x) ?r5"
    using assms by (intro scan_exclude_run) (simp_all add: storable_def c_string_def)
  have "scan_exclude NL MAX_TIME_LENGTH (?r6 @ []) = Converted (time x) []"
    using assms by (intro scan_exclude_run) (simp_all add: storable_def c_string_def)
  then have tm: "scan_exclude NL MAX_TIME_LENGTH ?r6 = Converted (time x) []" by simp
  have l: "\<And>r. scan_lit CHR ''|'' (CHR ''|'' # r) = Some r" by (simp add: scan_lit_def)
  show ?thesis
    unfolding f sscanf_incident_def d
    by (simp add: Let_def l a t tm lit_or_stop_def conv_or_stop_def)
qed

lemma fgets_chars_line:
  "NL \<notin> set l \<Longrightarrow> length l < k \<Longrightarrow> fgets_chars k (l @ NL # r) = (l @ [NL], r)"
proof (induction l arbitrary: k)
  case Nil
  then show ?case by (cases k) simp_all
next
  case (Cons c l)
  then obtain k' where k: "k = Suc k'" by (cases k) auto
  with Cons show ?case by auto
qed

lemma strip_newline_line: "NUL \<notin> set l \<Longrightarrow> strip_newline (l @ [NL]) = l"
proof -
  assume n: "NUL \<notin> set l"
  have "NL \<noteq> NUL" by (simp add: NL_def NUL_def)
  then have "c_str (l @ [NL]) = l @ [NL]"
    using n by (auto simp: c_str_def takeWhile_eq_all_conv)
  then show ?thesis by (simp add: strip_newline_def)
qed

lemma format_fields_chars:
  assumes "storable x"
  shows "NL \<notin> set (format_fields x)" and "NUL \<notin> set (format_fields x)"
    and "length (format_fields x) < 299"
proof -
  have p: "NL \<notin> set (print_d (id x))" "NUL \<notin> set (print_d (id x))"
    using print_d_chars [of NL "id x"] print_d_chars [of NUL "id x"]
    by (auto simp: NL_def NUL_def isdigit_def)
  have bar: "NL \<noteq> CHR ''|''" "NUL \<noteq> CHR ''|''" by (simp_all add: NL_def NUL_def)
  show "NL \<notin> set (format_fields x)"
    using assms p(1) bar(1) by (simp add: format_fields_def storable_def)
  show "NUL \<notin> set (format_fields x)"
    using assms p(2) bar(2) by (simp add: format_fields_def storable_def c_string_def)
  show "length (format_fields x) < 299"
    using assms length_print_d [of "id x"]
    by (simp add: format_fields_def storable_def c_string_def
          MAX_AREA_LENGTH_def MAX_TYPE_LENGTH_def MAX_TIME_LENGTH_def)
qed

lemma fgets_line_buffer:
  "fgets (MAX_STRING_LENGTH * 3) s = (if s = [] then None else Some (fgets_chars 299 s))"
  by (simp add: fgets_def MAX_STRING_LENGTH_def)

lemma fgets_format_incident:
  assumes "storable x"
  shows "fgets (MAX_STRING_LENGTH * 3) (format_incident x @ rest) =
           Some (format_fields x @ [NL], rest)"
proof -
  have "fgets_chars 299 (format_fields x @ NL # rest) = (format_fields x @ [NL], rest)"
    using format_fields_chars [OF assms] by (intro fgets_chars_line) simp_all
  then show ?thesis
    by (simp add: fgets_line_buffer format_incident_fields)
qed

lemma readLoop_format_incident:
  assumes "storable x" "count < MAX_INCIDENTS"
  shows "readLoop incs count (format_incident x @ rest) =
           readLoop (incs[count := x]) (count + 1) rest"
  using assms(2)
  by (subst readLoop.simps)
     (simp add: fgets_format_incident [OF assms(1)]
        strip_newline_line [OF format_fields_chars(2) [OF assms(1)]]
        sscanf_incident_format_fields [OF assms(1)])

lemma readLoop_end: "readLoop incs count [] = Inr (incs, count)"
  by (subst readLoop.simps) (simp add: fgets_def)

lemma readLoop_full: "\<not> count < MAX_INCIDENTS \<Longrightarrow> readLoop incs count file = Inr (incs, count)"
  by (subst readLoop.simps) simp

lemma fgets_chars_append:
  assumes "f1 \<noteq> []" "last f1 = NL"
  shows "fgets_chars k (f1 @ f2) = (fst (fgets_chars k f1), snd (fgets_chars k f1) @ f2)"
  using assms
proof (induction k f1 rule: fgets_chars.induct)
  case (1 s)
  then show ?case by simp
next
  case (2 k)
  then show ?case by simp
next
  case (3 k c cs)
  show ?case
  proof (cases "c = NL")
    case True
    then show ?thesis by simp
  next
    case False
    with "3.prems" have "cs \<noteq> []" "last cs = NL" by (auto split: if_splits)
    from "3.IH" [OF False this] False show ?thesis by (simp add: split_beta)
  qed
qed

lemma fgets_chars_rest_terminated:
  assumes "f1 \<noteq> []" "last f1 = NL"
  shows "snd (fgets_chars k f1) = [] \<or> last (snd (fgets_chars k f1)) = NL"
  using assms
proof (induction k f1 rule: fgets_chars.induct)
  case (1 s)
  then show ?case by simp
next
  case (2 k)
  then show ?case by simp
next
  case (3 k c cs)
  show ?case
  proof (cases "c = NL")
    case True
    with "3.prems" show ?thesis by (auto split: if_splits)
  next
    case False
    with "3.prems" have "cs \<noteq> []" "last cs = NL" by (auto split: if_splits)
    from "3.IH" [OF False this] False show ?thesis by (simp add: split_beta)
  qed
qed

text \<open>Reading a stream whose first part ends with a newline: the loop runs over the
  first part, then goes on with the second from the state it has reached.\<close>

lemma readLoop_append:
  assumes "f1 = [] \<or> last f1 = NL"
  shows "readLoop incs count (f1 @ f2) =
           (case readLoop incs count f1 of
              Inl u \<Rightarrow> Inl u
            | Inr (incs', count') \<Rightarrow> readLoop incs' count' f2)"
  using assms
proof (induction incs count f1 rule: readLoop.induct)
  case (1 incs count fl)
  show ?case
  proof (cases "count < MAX_INCIDENTS")
    case False
    then show ?thesis by (simp add: readLoop_full)
  next
    case room: True
    show ?thesis
    proof (cases "fl = []")
      case True
      then show ?thesis by (simp add: readLoop_end)
    next
      case False
      with "1.prems" have lst: "last fl = NL" by simp
      let ?line = "fst (fgets_chars 299 fl)"
      let ?rest = "snd (fgets_chars 299 fl)"
      have g1: "fgets (MAX_STRING_LENGTH * 3) fl = Some (?line, ?rest)"
        using False by (simp add: fgets_line_buffer)
      have g2: "fgets (MAX_STRING_LENGTH * 3) (fl @ f2) = Some (?line, ?rest @ f2)"
        using False fgets_chars_append [OF False lst, of 299 f2]
        by (simp add: fgets_line_buffer)
      have tl_ok: "?rest = [] \<or> last ?rest = NL"
        by (rule fgets_chars_rest_terminated [OF False lst])
      show ?thesis
      proof (cases "sscanf_incident (strip_newline ?line) (incs ! count)")
        case (Inl u)
        have l: "readLoop incs count (fl @ f2) = Inl u"
          using room by (subst readLoop.simps) (simp add: g2 Inl case_prod_beta)
        have r: "readLoop incs count fl = Inl u"
          using room by (subst readLoop.simps) (simp add: g1 Inl case_prod_beta)
        show ?thesis by (simp add: l r)
      next
        case (Inr p)
        obtain n slot where p: "p = (n, slot)" by (cases p)
        have ih: "readLoop (incs[count := slot]) (if n = 4 then count + 1 else count) (?rest @ f2) =
            (case readLoop (incs[count := slot]) (if n = 4 then count + 1 else count) ?rest of
               Inl u \<Rightarrow> Inl u
             | Inr (incs', count') \<Rightarrow> readLoop incs' count' f2)"
          using "1.IH" [OF room g1 refl Inr [unfolded p] refl tl_ok] by simp
        have l: "readLoop incs count (fl @ f2) =
            readLoop (incs[count := slot]) (if n = 4 then count + 1 else count) (?rest @ f2)"
          using room by (subst readLoop.simps) (simp add: g2 Inr p case_prod_beta)
        have r: "readLoop incs count fl =
            readLoop (incs[count := slot]) (if n = 4 then count + 1 else count) ?rest"
          using room by (subst readLoop.simps) (simp add: g1 Inr p case_prod_beta)
        show ?thesis unfolding l r ih ..
      qed
    qed
  qed
qed

lemma scan_exclude_Converted:
  "scan_exclude c cap s = Converted a r \<Longrightarrow> a \<noteq> [] \<and> length a < cap \<and> c \<notin> set a"
  by (auto simp: scan_exclude_def Let_def split: if_splits dest: set_takeWhileD)

lemma sscanf_incident_four:
  assumes "sscanf_incident line slot = Inr (4, s')"
  shows "area s' \<noteq> [] \<and> type s' \<noteq> [] \<and> time s' \<noteq> []"
proof -
  from assms obtain v r1 r2 a r3 r4 t r5 r6 tm r7 where
    "scan_exclude CHR ''|'' MAX_AREA_LENGTH r2 = Converted a r3"
    "scan_exclude CHR ''|'' MAX_TYPE_LENGTH r4 = Converted t r5"
    "scan_exclude NL MAX_TIME_LENGTH r6 = Converted tm r7"
    "s' = slot\<lparr>id := v, area := a, type := t, time := tm\<rparr>"
    unfolding sscanf_incident_def lit_or_stop_def conv_or_stop_def Let_def
    by (auto split: conv.splits option.splits)
  then show ?thesis by (auto dest: scan_exclude_Converted)
qed

lemma readLoop_length:
  "readLoop incs count fl = Inr (incs', n) \<Longrightarrow> length incs' = length incs"
proof (induction incs count fl rule: readLoop.induct)
  case (1 incs count fl)
  show ?case
  proof (cases "count < MAX_INCIDENTS \<and> fl \<noteq> []")
    case False
    with "1.prems" show ?thesis
      by (auto simp: readLoop_full readLoop_end)
  next
    case True
    then have room: "count < MAX_INCIDENTS" and ne: "fl \<noteq> []" by simp_all
    let ?line = "fst (fgets_chars 299 fl)"
    let ?rest = "snd (fgets_chars 299 fl)"
    have g: "fgets (MAX_STRING_LENGTH * 3) fl = Some (?line, ?rest)"
      using ne by (simp add: fgets_line_buffer)
    show ?thesis
    proof (cases "sscanf_incident (strip_newline ?line) (incs ! count)")
      case (Inl u)
      have "readLoop incs count fl = Inl u"
        using room by (subst readLoop.simps) (simp add: g Inl case_prod_beta)
      with "1.prems" show ?thesis by simp
    next
      case (Inr p)
      obtain k slot where p: "p = (k, slot)" by (cases p)
      have "readLoop incs count fl =
            readLoop (incs[count := slot]) (if k = 4 then count + 1 else count) ?rest"
        using room by (subst readLoop.simps) (simp add: g Inr p case_prod_beta)
      with "1.prems" "1.IH" [OF room g refl Inr [unfolded p] refl] show ?thesis by simp
    qed
  qed
qed

lemma readLoop_count:
  "readLoop incs count fl = Inr (incs', n) \<Longrightarrow> count \<le> MAX_INCIDENTS \<Longrightarrow> n \<le> MAX_INCIDENTS"
proof (induction incs count fl rule: readLoop.induct)
  case (1 incs count fl)
  show ?case
  proof (cases "count < MAX_INCIDENTS \<and> fl \<noteq> []")
    case False
    with "1.prems" show ?thesis
      by (auto simp: readLoop_full readLoop_end)
  next
    case True
    then have room: "count < MAX_INCIDENTS" and ne: "fl \<noteq> []" by simp_all
    let ?line = "fst (fgets_chars 299 fl)"
    let ?rest = "snd (fgets_chars 299 fl)"
    have g: "fgets (MAX_STRING_LENGTH * 3) fl = Some (?line, ?rest)"
      using ne by (simp add: fgets_line_buffer)
    show ?thesis
    proof (cases "sscanf_incident (strip_newline ?line) (incs ! count)")
      case (Inl u)
      have "readLoop incs count fl = Inl u"
        using room by (subst readLoop.simps) (simp add: g Inl case_prod_beta)
      with "1.prems" show ?thesis by simp
    next
      case (Inr p)
      obtain k slot where p: "p = (k, slot)" by (cases p)
      have "readLoop incs count fl =
            readLoop (incs[count := slot]) (if k = 4 then count + 1 else count) ?rest"
        using room by (subst readLoop.simps) (simp add: g Inr p case_prod_beta)
      moreover have "(if k = 4 then count + 1 else count) \<le> MAX_INCIDENTS"
        using room by simp
      ultimately show ?thesis
        using "1.prems" "1.IH" [OF room g refl Inr [unfolded p] refl] by simp
    qed
  qed
qed

lemma readLoop_nonempty_fields:
  assumes "readLoop incs count fl = Inr (incs', n)" "length incs = MAX_INCIDENTS"
    and "\<forall>r\<in>set (take count incs). area r \<noteq> [] \<and> type r \<noteq> [] \<and> time r \<noteq> []"
  shows "\<forall>r\<in>set (take n incs'). area r \<noteq> [] \<and> type r \<noteq> [] \<and> time r \<noteq> []"
  using assms
proof (induction incs count fl rule: readLoop.induct)
  case (1 incs count fl)
  show ?case
  proof (cases "count < MAX_INCIDENTS \<and> fl \<noteq> []")
    case False
    with "1.prems" show ?thesis
      by (auto simp: readLoop_full readLoop_end)
  next
    case True
    then have room: "count < MAX_INCIDENTS" and ne: "fl \<noteq> []" by simp_all
    let ?line = "fst (fgets_chars 299 fl)"
    let ?rest = "snd (fgets_chars 299 fl)"
    have g: "fgets (MAX_STRING_LENGTH * 3) fl = Some (?line, ?rest)"
      using ne by (simp add: fgets_line_buffer)
    show ?thesis
    proof (cases "sscanf_incident (strip_newline ?line) (incs ! count)")
      case (Inl u)
      have "readLoop incs count fl = Inl u"
        using room by (subst readLoop.simps) (simp add: g Inl case_prod_beta)
      with "1.prems" show ?thesis by simp
    next
      case (Inr p)
      obtain k slot where p: "p = (k, slot)" by (cases p)
      let ?c = "if k = 4 then count + 1 else count"
      have step: "readLoop incs count fl = readLoop (incs[count := slot]) ?c ?rest"
        using room by (subst readLoop.simps) (simp add: g Inr p case_prod_beta)
      have len: "length (incs[count := slot]) = MAX_INCIDENTS"
        using "1.prems"(2) by simp
      have inv: "\<forall>r\<in>set (take ?c (incs[count := slot])).
                   area r \<noteq> [] \<and> type r \<noteq> [] \<and> time r \<noteq> []"
      proof (cases "k = 4")
        case True
        have "take (count + 1) (incs[count := slot]) = take count incs @ [slot]"
          using room "1.prems"(2) by (simp add: take_Suc_conv_app_nth)
        with True "1.prems"(3) sscanf_incident_four [OF Inr [unfolded p True]]
        show ?thesis by auto
      next
        case False
        with "1.prems"(3) show ?thesis by simp
      qed
      from "1.IH" [OF room g refl Inr [unfolded p] refl _ len inv] "1.prems"(1) step
      show ?thesis by simp
    qed
  qed
qed

lemma loaded_readLoop:
  "read_ok w \<Longrightarrow>
   loaded w =
     (case readLoop (incidents w) 0 (case data_file w of None \<Rightarrow> [] | Some f \<Rightarrow> f) of
        Inl u \<Rightarrow> Inl u
      | Inr (incs, n) \<Rightarrow> Inr (take n incs))"
  by (cases "data_file w")
     (simp_all add: loaded_def readIncidentsFromFile_def fopen_r_def readLoop_end)

lemma loaded_after_line:
  assumes len: "length incs = MAX_INCIDENTS"
    and f: "f = [] \<or> last f = NL"
    and ld: "readLoop incs 0 f = Inr (incs', n)"
    and n: "length (take n incs') < MAX_INCIDENTS"
    and x: "storable x"
  shows "readLoop incs 0 (f @ format_incident x) = Inr (incs'[n := x], n + 1)"
    and "take (n + 1) (incs'[n := x]) = take n incs' @ [x]"
proof -
  have len': "length incs' = MAX_INCIDENTS"
    using readLoop_length [OF ld] len by simp
  have room: "n < MAX_INCIDENTS" using n len' by simp
  have "readLoop incs 0 (f @ format_incident x) = readLoop incs' n (format_incident x @ [])"
    by (simp add: readLoop_append [OF f] ld)
  also have "\<dots> = readLoop (incs'[n := x]) (n + 1) []"
    by (rule readLoop_format_incident [OF x room])
  finally show "readLoop incs 0 (f @ format_incident x) = Inr (incs'[n := x], n + 1)"
    by (simp add: readLoop_end)
  show "take (n + 1) (incs'[n := x]) = take n incs' @ [x]"
    using room len' by (simp add: take_Suc_conv_app_nth)
qed

lemma starts_with_iff: "starts_with h n \<longleftrightarrow> (\<exists>ss. h = n @ ss)"
  by (induction h n rule: starts_with.induct) auto

lemma strstr_iff: "strstr h n \<noteq> None \<longleftrightarrow> (\<exists>ps ss. h = ps @ n @ ss)"
proof (induction h)
  case Nil
  show ?case by simp
next
  case (Cons x h)
  have "(\<exists>ps ss. x # h = ps @ n @ ss) \<longleftrightarrow> (\<exists>ss. x # h = n @ ss) \<or> (\<exists>ps ss. h = ps @ n @ ss)"
  proof
    assume "\<exists>ps ss. x # h = ps @ n @ ss"
    then obtain ps ss where e: "x # h = ps @ n @ ss" by blast
    show "(\<exists>ss. x # h = n @ ss) \<or> (\<exists>ps ss. h = ps @ n @ ss)"
    proof (cases ps)
      case Nil
      with e show ?thesis by auto
    next
      case (Cons p ps')
      with e have "h = ps' @ n @ ss" by simp
      then show ?thesis by blast
    qed
  next
    assume "(\<exists>ss. x # h = n @ ss) \<or> (\<exists>ps ss. h = ps @ n @ ss)"
    then show "\<exists>ps ss. x # h = ps @ n @ ss"
    proof
      assume "\<exists>ss. x # h = n @ ss"
      then obtain ss where "x # h = [] @ n @ ss" by auto
      then show ?thesis by blast
    next
      assume "\<exists>ps ss. h = ps @ n @ ss"
      then obtain ps ss where "x # h = (x # ps) @ n @ ss" by auto
      then show ?thesis by blast
    qed
  qed
  with Cons.IH show ?case by (simp add: starts_with_iff)
qed

lemma lower_copy_short: "length s < MAX_STRING_LENGTH \<Longrightarrow> lower_copy s = map tolower s"
  by (simp add: lower_copy_def)

lemma strContains_iff:
  assumes "length str < MAX_STRING_LENGTH" "length substr < MAX_STRING_LENGTH"
  shows "strContains str substr \<longleftrightarrow>
         (\<exists>ps ss. map tolower str = ps @ map tolower substr @ ss)"
  unfolding strContains_def lower_copy_short [OF assms(1)] lower_copy_short [OF assms(2)]
  by (rule strstr_iff)

lemma strContains_empty: "strContains str []"
proof -
  have "lower_copy [] = []" by (simp add: lower_copy_def)
  moreover have "lower_copy str = [] @ [] @ lower_copy str" by simp
  then have "\<exists>ps ss. lower_copy str = ps @ [] @ ss" by blast
  ultimately show ?thesis unfolding strContains_def strstr_iff by simp
qed

lemma rows_append: "rows (es @ fs) = rows es @ rows fs"
  by (induction es rule: rows.induct) simp_all

lemma rows_area_rows: "rows (area_rows n rs) = filter (\<lambda>r. strContains (area r) n) rs"
  by (induction rs) simp_all

lemma rows_type_rows: "rows (type_rows n rs) = filter (\<lambda>r. strContains (type r) n) rs"
  by (induction rs) simp_all

lemma collection_empty: "incidentCount w = 0 \<Longrightarrow> collection w = []"
  by (simp add: collection_def)

lemma rows_viewIncidentsByArea:
  "rows (viewIncidentsByArea w n) = filter (\<lambda>r. strContains (area r) n) (collection w)"
  by (simp add: viewIncidentsByArea_def Let_def rows_append rows_area_rows collection_empty)

lemma rows_viewIncidentsByType:
  "rows (viewIncidentsByType w n) = filter (\<lambda>r. strContains (type r) n) (collection w)"
  by (simp add: viewIncidentsByType_def Let_def rows_append rows_type_rows collection_empty)

lemma time_format_examples:
  "isValidTimeFormat ''14:30'' = Inr True"
  "isValidTimeFormat ''24:00'' = Inr False"
  "isValidTimeFormat ''abc'' = Inr False"
  "isValidTimeFormat ''14:30x'' = Inr False"
  "isValidTimeFormat ''25:61'' = Inr False"
  "isValidTimeFormat '' 9:5'' = Inr True"
  "isValidTimeFormat ''+9:+5'' = Inr True"
  "isValidTimeFormat ''9: 5'' = Inr True"
  "isValidTimeFormat ''0000014:030'' = Inr True"
  by code_simp+

lemma load_missing_file:
  "fopen_r w = None \<Longrightarrow> readIncidentsFromFile w = Inr (incidents w, 0) \<and> loaded w = Inr []"
  by (simp add: readIncidentsFromFile_def loaded_def)

lemma readLoop_skips_line:
  assumes "count < MAX_INCIDENTS"
    and "fgets (MAX_STRING_LENGTH * 3) fl = Some (line, rest)"
    and "sscanf_incident (strip_newline line) (incs ! count) = Inr (k, slot)"
    and "k \<noteq> 4"
  shows "readLoop incs count fl = readLoop (incs[count := slot]) count rest"
  using assms by (subst readLoop.simps) simp

lemma load_tolerance_examples:
  "loaded (fresh_world\<lparr>data_file := Some skip_file\<rparr>) = Inr [first_incident]"
  "loaded (fresh_world\<lparr>data_file := Some skip_first_file\<rparr>) = Inr [first_incident]"
  "loaded fresh_world = Inr []"
  "loaded (fresh_world\<lparr>data_file := Some []\<rparr>) = Inr []"
  by code_simp+

lemma scan_d_digits:
  assumes "ds \<noteq> []" "\<forall>c\<in>set ds. isdigit c" "rest = [] \<or> \<not> isdigit (hd rest)"
    and "dec_value ds \<le> INT_MAX" "0 \<le> dec_value ds"
  shows "scan_d (ds @ rest) = Converted (word_of_int (dec_value ds)) rest"
proof -
  obtain d ds' where ds: "ds = d # ds'" using assms(1) by (cases ds) auto
  have d: "isdigit d" using assms(2) ds by simp
  have "dropWhile isspace (ds @ rest) = d # (ds' @ rest)"
    using ds isdigit_not_isspace [OF d] by simp
  moreover have "takeWhile isdigit (d # (ds' @ rest)) = ds"
    and "dropWhile isdigit (d # (ds' @ rest)) = rest"
    using span_run [OF assms(2,3)] ds by simp_all
  ultimately show ?thesis
    using assms(4,5) ds isdigit_not_sign [OF d]
    by (simp add: scan_d_def Let_def INT_MIN_def)
qed

lemma two_digits_scan:
  assumes "0 \<le> n" "n < 100" "rest = [] \<or> \<not> isdigit (hd rest)"
  shows "scan_d (two_digits n @ rest) = Converted (word_of_int n) rest"
proof -
  have r: "0 \<le> n div 10" "n div 10 < 10" "0 \<le> n mod 10" "n mod 10 < 10"
    using assms(1,2) by simp_all
  have dig: "\<forall>c\<in>set (two_digits n). isdigit c"
    using r by (simp add: two_digits_def digit_char_isdigit)
  have "dec_value (two_digits n) = 10 * (n div 10) + n mod 10"
    using r by (simp add: two_digits_def dec_value_def digit_char_code)
  then have val: "dec_value (two_digits n) = n" by simp
  have ne: "two_digits n \<noteq> []" by (simp add: two_digits_def)
  from scan_d_digits [OF ne dig assms(3)] val assms(1,2)
  show ?thesis by (simp add: INT_MAX_def)
qed

lemma sint_small: "0 \<le> n \<Longrightarrow> n < 100 \<Longrightarrow> sint (word_of_int n :: c_int) = n"
proof -
  assume "0 \<le> n" "n < 100"
  then have "signed_take_bit 31 n = n"
    by (intro signed_take_bit_int_eq_self) simp_all
  then show ?thesis by (simp add: sint_sbintrunc' [where ?'a = 32, simplified])
qed

lemma valid_times_accepted:
  assumes "0 \<le> h" "h \<le> 23" "0 \<le> m" "m \<le> 59"
  shows "isValidTimeFormat (two_digits h @ [CHR '':''] @ two_digits m) = Inr True"
proof -
  have colon: "\<not> isdigit CHR '':''" by (simp add: isdigit_def)
  have h: "scan_d (two_digits h @ CHR '':'' # two_digits m) =
             Converted (word_of_int h) (CHR '':'' # two_digits m)"
    using assms(1,2) colon by (intro two_digits_scan) simp_all
  have "scan_d (two_digits m @ []) = Converted (word_of_int m) []"
    using assms(3,4) by (intro two_digits_scan) simp_all
  then have m: "scan_d (two_digits m) = Converted (word_of_int m) []" by simp
  have "sscanf_time (two_digits h @ [CHR '':''] @ two_digits m) =
          Inr (2, Some (word_of_int h), Some (word_of_int m))"
    by (simp add: sscanf_time_def h m scan_lit_def)
  moreover have "sint (word_of_int h :: c_int) = h" "sint (word_of_int m :: c_int) = m"
    using assms by (simp_all add: sint_small)
  ultimately show ?thesis using assms by (simp add: isValidTimeFormat_def)
qed

section \<open>The claims\<close>

subsection \<open>C1: a record appended to the store comes back on the next load\<close>

text \<open>
  Claim C1, with the conditions the code needs. Let the store be readable and open for
  appending, let it consist of complete lines, and let it load, with no field
  overflowing its array, to the records \<open>recs\<close>, fewer than \<^verbatim>\<open>MAX_INCIDENTS\<close> of them.
  Let \<open>x\<close> be a record whose fields are non-empty C strings that fit their arrays and
  contain no newline, with no \<^verbatim>\<open>|\<close> in \<open>area\<close> and \<open>type\<close>. Then after
  \<^verbatim>\<open>writeIncidentToFile\<close> has appended \<open>x\<close>, \<^verbatim>\<open>readIncidentsFromFile\<close> loads \<open>recs\<close>
  followed by \<open>x\<close>: the record read back equals \<open>x\<close> in id, area, type and time.
\<close>

theorem append_then_load_round_trip:
  assumes "length (incidents w) = MAX_INCIDENTS"
    and "read_ok w" and "append_ok w"
    and "line_terminated (data_file w)"
    and "loaded w = Inr recs" and "length recs < MAX_INCIDENTS"
    and "storable x"
  shows "loaded (snd (writeIncidentToFile w x)) = Inr (recs @ [x])"
proof -
  let ?f = "case data_file w of None \<Rightarrow> [] | Some f \<Rightarrow> f"
  let ?w = "snd (writeIncidentToFile w x)"
  have f: "?f = [] \<or> last ?f = NL"
    using assms(4) by (auto simp: line_terminated_def split: option.splits)
  from assms(5) obtain incs' n where
    ld: "readLoop (incidents w) 0 ?f = Inr (incs', n)" and recs: "recs = take n incs'"
    by (auto simp: loaded_readLoop [OF assms(2)] split: sum.splits)
  have n: "length (take n incs') < MAX_INCIDENTS" using assms(6) recs by simp
  have w: "read_ok ?w" "incidents ?w = incidents w"
    "data_file ?w = Some (?f @ format_incident x)"
    using assms(2,3) by (simp_all add: writeIncidentToFile_def)
  show ?thesis
    using loaded_after_line [OF assms(1) f ld n assms(7)]
    by (simp add: loaded_readLoop [OF w(1)] w(2,3) recs)
qed

text \<open>
  The claim as worded asks only for non-empty fields without \<^verbatim>\<open>|\<close> and within the
  length bounds. A newline inside such a field ends the line early, and the record is
  not loaded at all; and a store whose last line has no newline swallows the appended
  line into that line's time field.
\<close>

theorem append_then_load_round_trip_counterexample:
  "area newline_incident \<noteq> [] \<and> CHR ''|'' \<notin> set (area newline_incident)
     \<and> length (area newline_incident) < MAX_AREA_LENGTH
   \<and> loaded (snd (writeIncidentToFile fresh_world newline_incident)) = Inr []
   \<and> loaded unterminated_world = Inr [first_incident]
   \<and> loaded (snd (writeIncidentToFile unterminated_world second_incident)) =
       Inr [first_incident\<lparr>time := ''08:152|A4|ice|21:40''\<rparr>]"
  by code_simp

text \<open>A store holding one record, and a second record appended to it.\<close>

theorem append_then_load_round_trip_witness:
  "loaded one_line_world = Inr [first_incident]
   \<and> loaded (snd (writeIncidentToFile one_line_world second_incident)) =
       Inr [first_incident, second_incident]"
proof -
  have h: "length (incidents one_line_world) = MAX_INCIDENTS" "read_ok one_line_world"
    "append_ok one_line_world" "line_terminated (data_file one_line_world)"
    "loaded one_line_world = Inr [first_incident]" "length [first_incident] < MAX_INCIDENTS"
    "storable second_incident"
    by code_simp+
  from append_then_load_round_trip [OF h] h(5) show ?thesis by simp
qed

subsection \<open>C2: the next id is one more than the largest id\<close>

text \<open>
  Claim C2, as the code computes it. \<^verbatim>\<open>maxId\<close> starts at 0, so \<^verbatim>\<open>getNextIncidentId\<close>
  returns one more than the largest of 0 and the ids in the collection, provided no id
  is \<^verbatim>\<open>INT_MAX\<close>. That is one more than the largest id as soon as some id is not
  negative, and 1 for an empty collection. \<^verbatim>\<open>addIncident\<close> computes the id from the
  state it is called in, reports it and stores it in the new slot; and from a state with
  no records, any run of at most \<^verbatim>\<open>MAX_INCIDENTS\<close> reports is numbered 1, 2, 3, ...
\<close>

theorem next_id_is_one_past_max:
  assumes "\<forall>r\<in>set (collection w). sint (id r) < INT_MAX"
  shows "sint (getNextIncidentId w) = 1 + Max (insert 0 ((\<lambda>r. sint (id r)) ` set (collection w)))
    \<and> ((\<exists>r\<in>set (collection w). 0 \<le> sint (id r)) \<longrightarrow>
         sint (getNextIncidentId w) = 1 + Max ((\<lambda>r. sint (id r)) ` set (collection w)))
    \<and> (collection w = [] \<longrightarrow> getNextIncidentId w = 1)
    \<and> (incidentCount w < MAX_INCIDENTS \<and> length (incidents w) = MAX_INCIDENTS \<longrightarrow>
         fst (addIncident w a t tm) = (if append_ok w then [] else [OpenWriteError])
                                       @ [ReportedOk (getNextIncidentId w)]
         \<and> id (incidents (snd (addIncident w a t tm)) ! incidentCount w) = getNextIncidentId w)
    \<and> (incidentCount w0 = 0 \<and> length (incidents w0) = MAX_INCIDENTS
         \<and> length inputs \<le> MAX_INCIDENTS \<longrightarrow>
         map (\<lambda>r. sint (id r)) (collection (addIncidents w0 inputs))
           = map int [1..<Suc (length inputs)])"
proof (intro conjI impI)
  let ?S = "(\<lambda>r. sint (id r)) ` set (collection w)"
  show general: "sint (getNextIncidentId w) = 1 + Max (insert 0 ?S)"
    by (simp add: sint_next_id [OF assms] sint_max_id_loop)
  {
    assume "\<exists>r\<in>set (collection w). 0 \<le> sint (id r)"
    then obtain r where r: "r \<in> set (collection w)" "0 \<le> sint (id r)" by blast
    have ne: "?S \<noteq> {}" using r(1) by auto
    have "sint (id r) \<le> Max ?S" using r(1) by (intro Max_ge) auto
    then have "0 \<le> Max ?S" using r(2) by linarith
    then have "Max (insert 0 ?S) = Max ?S"
      using ne by (simp add: max_def)
    then show "sint (getNextIncidentId w) = 1 + Max ?S" using general by simp
  }
  {
    assume "collection w = []"
    then show "getNextIncidentId w = 1" by (simp add: getNextIncidentId_def)
  }
  {
    assume a: "incidentCount w < MAX_INCIDENTS \<and> length (incidents w) = MAX_INCIDENTS"
    then show "fst (addIncident w a t tm) = (if append_ok w then [] else [OpenWriteError])
                                       @ [ReportedOk (getNextIncidentId w)]"
      by (simp add: addIncident_room Let_def)
    from a show "id (incidents (snd (addIncident w a t tm)) ! incidentCount w) = getNextIncidentId w"
      by (simp add: addIncident_room Let_def)
  }
  {
    assume a: "incidentCount w0 = 0 \<and> length (incidents w0) = MAX_INCIDENTS
         \<and> length inputs \<le> MAX_INCIDENTS"
    then have c: "collection w0 = []" by (simp add: collection_def)
    from a have "map (\<lambda>r. sint (id r)) (collection w0) = map int [1..<Suc (incidentCount w0)]"
      by (simp add: c)
    from ids_after_addIncidents [OF _ this, of inputs] a
    show "map (\<lambda>r. sint (id r)) (collection (addIncidents w0 inputs))
           = map int [1..<Suc (length inputs)]"
      by simp
  }
qed

text \<open>
  A store whose only record has id \<open>- 5\<close> loads, and the next id is then 1, where the
  claim as worded asks for \<open>1 + (- 5)\<close>.
\<close>

theorem next_id_is_one_past_max_counterexample:
  "main_load (fresh_world\<lparr>data_file := Some negative_id_file\<rparr>) = Inr negative_id_world
   \<and> map (\<lambda>r. sint (id r)) (collection negative_id_world) = [- 5]
   \<and> sint (getNextIncidentId negative_id_world) = 1
   \<and> 1 + Max ((\<lambda>r. sint (id r)) ` set (collection negative_id_world)) = - 4"
  by code_simp

text \<open>A loaded collection with ids 7, 3, 7, and three reports into the fresh state.\<close>

theorem next_id_is_one_past_max_witness:
  "sint (getNextIncidentId shuffled_ids_world) = 8
   \<and> fst (addIncident shuffled_ids_world ''Mill Ln'' ''graffiti'' ''13:00'') = [ReportedOk 8]
   \<and> map (\<lambda>r. sint (id r)) (collection (addIncidents fresh_world three_reports)) = [1, 2, 3]"
proof -
  have h: "\<forall>r\<in>set (collection shuffled_ids_world). sint (id r) < INT_MAX" by code_simp
  have m: "(\<lambda>r. sint (id r)) ` set (collection shuffled_ids_world) = {7, 3}" by code_simp
  have f: "incidentCount shuffled_ids_world < MAX_INCIDENTS
           \<and> length (incidents shuffled_ids_world) = MAX_INCIDENTS
           \<and> append_ok shuffled_ids_world" by code_simp
  have g: "incidentCount fresh_world = 0 \<and> length (incidents fresh_world) = MAX_INCIDENTS
           \<and> length three_reports \<le> MAX_INCIDENTS \<and> length three_reports = 3" by code_simp
  have n: "getNextIncidentId shuffled_ids_world = 8" by code_simp
  from next_id_is_one_past_max
         [OF h, of "''Mill Ln''" "''graffiti''" "''13:00''" fresh_world three_reports]
  show ?thesis using m f g n by (simp add: upt_rec)
qed

subsection \<open>C3: a full array rejects the report and changes nothing\<close>

text \<open>
  Claim C3. When \<open>incidentCount\<close> equals \<^verbatim>\<open>MAX_INCIDENTS\<close>, \<^verbatim>\<open>addIncident\<close> prints the
  capacity error and returns the state it was given: the array, the count and the store
  file are the same. Starting from a count of 0, every report of a run of at most 100 is
  counted, and after exactly 100 of them the next report is rejected with the state
  unchanged, so the count stays 100.
\<close>

theorem capacity_rejects_append:
  "(incidentCount w = MAX_INCIDENTS \<longrightarrow> addIncident w a t tm = ([MaxIncidentsError], w)) \<and>
   (incidentCount w0 = 0 \<and> length inputs \<le> MAX_INCIDENTS \<longrightarrow>
      incidentCount (addIncidents w0 inputs) = length inputs) \<and>
   (incidentCount w0 = 0 \<and> length inputs = MAX_INCIDENTS \<longrightarrow>
      addIncident (addIncidents w0 inputs) a t tm =
        ([MaxIncidentsError], addIncidents w0 inputs))"
proof (intro conjI impI)
  assume "incidentCount w = MAX_INCIDENTS"
  then show "addIncident w a t tm = ([MaxIncidentsError], w)"
    by (simp add: addIncident_full)
next
  assume "incidentCount w0 = 0 \<and> length inputs \<le> MAX_INCIDENTS"
  then show "incidentCount (addIncidents w0 inputs) = length inputs"
    by (simp add: count_after_addIncidents)
next
  assume "incidentCount w0 = 0 \<and> length inputs = MAX_INCIDENTS"
  then have "incidentCount (addIncidents w0 inputs) = MAX_INCIDENTS"
    by (simp add: count_after_addIncidents)
  then show "addIncident (addIncidents w0 inputs) a t tm =
        ([MaxIncidentsError], addIncidents w0 inputs)"
    by (simp add: addIncident_full)
qed

text \<open>One hundred reports into the fresh state, then one more.\<close>

theorem capacity_rejects_append_witness:
  "incidentCount full_world = 100 \<and>
   addIncident full_world ''Oak Ave'' ''streetlight'' ''21:40'' = ([MaxIncidentsError], full_world)"
  using capacity_rejects_append
    [of full_world "''Oak Ave''" "''streetlight''" "''21:40''" fresh_world hundred_reports]
  by (simp add: full_world_def fresh_world_def hundred_reports_def MAX_INCIDENTS_def)

subsection \<open>C4: the filters select by lower-cased substring\<close>

text \<open>
  Claim C4. For a needle and records within the field length limits, the rows
  \<^verbatim>\<open>viewIncidentsByArea\<close> prints are the records of the collection whose lower-cased
  area contains the lower-cased needle as a substring, in the order of the collection;
  \<^verbatim>\<open>viewIncidentsByType\<close> does the same on the type; and the empty needle selects
  every record.
\<close>

theorem filters_select_by_lowercase_substring:
  assumes "length n < MAX_AREA_LENGTH"
    and "\<forall>r\<in>set (collection w).
           length (area r) < MAX_AREA_LENGTH \<and> length (type r) < MAX_TYPE_LENGTH"
  shows "rows (viewIncidentsByArea w n) =
           filter (\<lambda>r. \<exists>ps ss. map tolower (area r) = ps @ map tolower n @ ss) (collection w)
       \<and> rows (viewIncidentsByType w n) =
           filter (\<lambda>r. \<exists>ps ss. map tolower (type r) = ps @ map tolower n @ ss) (collection w)
       \<and> rows (viewIncidentsByArea w []) = collection w
       \<and> rows (viewIncidentsByType w []) = collection w"
proof (intro conjI)
  have n: "length n < MAX_STRING_LENGTH"
    using assms(1) by (simp add: MAX_AREA_LENGTH_def MAX_STRING_LENGTH_def)
  show "rows (viewIncidentsByArea w n) =
           filter (\<lambda>r. \<exists>ps ss. map tolower (area r) = ps @ map tolower n @ ss) (collection w)"
    unfolding rows_viewIncidentsByArea
  proof (rule filter_cong [OF refl])
    fix r assume "r \<in> set (collection w)"
    with assms(2) have "length (area r) < MAX_STRING_LENGTH"
      by (auto simp: MAX_AREA_LENGTH_def MAX_STRING_LENGTH_def)
    then show "strContains (area r) n \<longleftrightarrow>
               (\<exists>ps ss. map tolower (area r) = ps @ map tolower n @ ss)"
      using n by (rule strContains_iff)
  qed
  show "rows (viewIncidentsByType w n) =
           filter (\<lambda>r. \<exists>ps ss. map tolower (type r) = ps @ map tolower n @ ss) (collection w)"
    unfolding rows_viewIncidentsByType
  proof (rule filter_cong [OF refl])
    fix r assume "r \<in> set (collection w)"
    with assms(2) have "length (type r) < MAX_STRING_LENGTH"
      by (auto simp: MAX_TYPE_LENGTH_def MAX_STRING_LENGTH_def)
    then show "strContains (type r) n \<longleftrightarrow>
               (\<exists>ps ss. map tolower (type r) = ps @ map tolower n @ ss)"
      using n by (rule strContains_iff)
  qed
  show "rows (viewIncidentsByArea w []) = collection w"
    by (simp add: rows_viewIncidentsByArea strContains_empty)
  show "rows (viewIncidentsByType w []) = collection w"
    by (simp add: rows_viewIncidentsByType strContains_empty)
qed

text \<open>Two reports, "Main St" and "Oak Ave", filtered by "main".\<close>

theorem filters_select_by_lowercase_substring_witness:
  "collection two_streets_world =
     [\<lparr>area = ''Main St'', type = ''pothole'', time = ''08:15'', id = 1\<rparr>,
      \<lparr>area = ''Oak Ave'', type = ''streetlight'', time = ''21:40'', id = 2\<rparr>]
   \<and> filter (\<lambda>r. \<exists>ps ss. map tolower (area r) = ps @ map tolower ''main'' @ ss)
        (collection two_streets_world) =
     [\<lparr>area = ''Main St'', type = ''pothole'', time = ''08:15'', id = 1\<rparr>]
   \<and> filter (\<lambda>r. \<exists>ps ss. map tolower (type r) = ps @ map tolower ''main'' @ ss)
        (collection two_streets_world) = []
   \<and> rows (viewIncidentsByArea two_streets_world []) = collection two_streets_world"
proof -
  have h: "length ''main'' < MAX_AREA_LENGTH"
    "\<forall>r\<in>set (collection two_streets_world).
        length (area r) < MAX_AREA_LENGTH \<and> length (type r) < MAX_TYPE_LENGTH"
    by code_simp+
  have c: "collection two_streets_world =
     [\<lparr>area = ''Main St'', type = ''pothole'', time = ''08:15'', id = 1\<rparr>,
      \<lparr>area = ''Oak Ave'', type = ''streetlight'', time = ''21:40'', id = 2\<rparr>]"
    by code_simp
  have a: "rows (viewIncidentsByArea two_streets_world ''main'') =
     [\<lparr>area = ''Main St'', type = ''pothole'', time = ''08:15'', id = 1\<rparr>]"
    by code_simp
  have t: "rows (viewIncidentsByType two_streets_world ''main'') = []"
    by code_simp
  from filters_select_by_lowercase_substring [OF h] a t c show ?thesis by simp
qed

subsection \<open>C5: what \<^verbatim>\<open>isValidTimeFormat\<close> accepts\<close>

text \<open>
  Claim C5 says that exactly the strings of the form \<^verbatim>\<open>HH:MM\<close> are accepted and names
  \<^verbatim>\<open>9:5\<close> among the rejected ones. The function accepts \<^verbatim>\<open>9:5\<close>: \<^verbatim>\<open>%d\<close> takes any
  run of digits, so the scan converts two items with nothing left over, and both
  values are in range.
\<close>

theorem time_format_accepts_single_digits:
  "isValidTimeFormat ''9:5'' = Inr True"
  by code_simp

subsection \<open>C6: loading a store\<close>

text \<open>
  Claim C6 says that a load never fails. Reporting the area \<^verbatim>\<open>x|y\<close> with the type
  \<^verbatim>\<open>non-functional streetlight\<close> makes the program write a line whose fourth field, as
  \<^verbatim>\<open>sscanf\<close> splits it, has 32 characters; loading that store writes them into the
  20 bytes of \<open>time\<close>.
\<close>

theorem load_overflows_time_buffer:
  "data_file (snd (addIncident fresh_world ''x|y'' ''non-functional streetlight'' ''14:30''))
     = Some overflow_file
   \<and> loaded (fresh_world\<lparr>data_file := Some overflow_file\<rparr>) = Inl BufferOverflow"
  by code_simp

subsection \<open>C7: a report survives a store that cannot be opened\<close>

text \<open>
  Claim C7. When there is room in the array and the store cannot be opened for
  appending, \<^verbatim>\<open>addIncident\<close> still writes the new record, with the id it computed, into
  the next slot and increments the count; it prints the warning of
  \<^verbatim>\<open>writeIncidentToFile\<close> and then the success message, and the store is left as it was.
\<close>

theorem append_survives_write_failure:
  assumes "incidentCount w < MAX_INCIDENTS" and "length (incidents w) = MAX_INCIDENTS"
    and "\<not> append_ok w"
  shows "addIncident w a t tm =
           ([OpenWriteError, ReportedOk (getNextIncidentId w)],
            w\<lparr>incidents := (incidents w)
                   [incidentCount w := \<lparr>area = a, type = t, time = tm, id = getNextIncidentId w\<rparr>],
              incidentCount := incidentCount w + 1\<rparr>)
         \<and> collection (snd (addIncident w a t tm)) =
             collection w @ [\<lparr>area = a, type = t, time = tm, id = getNextIncidentId w\<rparr>]
         \<and> data_file (snd (addIncident w a t tm)) = data_file w"
proof (intro conjI)
  show first: "addIncident w a t tm =
           ([OpenWriteError, ReportedOk (getNextIncidentId w)],
            w\<lparr>incidents := (incidents w)
                   [incidentCount w := \<lparr>area = a, type = t, time = tm, id = getNextIncidentId w\<rparr>],
              incidentCount := incidentCount w + 1\<rparr>)"
    using assms(1,3) by (simp add: addIncident_room Let_def)
  show "collection (snd (addIncident w a t tm)) =
             collection w @ [\<lparr>area = a, type = t, time = tm, id = getNextIncidentId w\<rparr>]"
    by (rule collection_after_add [OF assms(1,2)])
  show "data_file (snd (addIncident w a t tm)) = data_file w"
    by (simp add: first)
qed

text \<open>The first report into a fresh state whose store cannot be opened.\<close>

theorem append_survives_write_failure_witness:
  "addIncident read_only_world ''Main St'' ''pothole'' ''08:15'' =
     ([OpenWriteError, ReportedOk 1],
      read_only_world\<lparr>incidents := (incidents read_only_world)
          [0 := \<lparr>area = ''Main St'', type = ''pothole'', time = ''08:15'', id = 1\<rparr>],
        incidentCount := 1\<rparr>)
   \<and> collection (snd (addIncident read_only_world ''Main St'' ''pothole'' ''08:15'')) =
       [\<lparr>area = ''Main St'', type = ''pothole'', time = ''08:15'', id = 1\<rparr>]
   \<and> data_file (snd (addIncident read_only_world ''Main St'' ''pothole'' ''08:15'')) = None"
  using append_survives_write_failure
    [of read_only_world "''Main St''" "''pothole''" "''08:15''"]
  by (simp add: read_only_world_def fresh_world_def MAX_INCIDENTS_def
        getNextIncidentId_def collection_def take_one_update)

subsection \<open>C8: what a successful report changes\<close>

text \<open>
  Claim C8. Whenever \<^verbatim>\<open>addIncident\<close> reports success with id \<open>i\<close>, the count has grown
  by one, the collection is the old collection followed by the new record (area, type
  and time as entered, id \<open>i\<close>), which sits in the slot the old count named, and every
  slot below it is unchanged.
\<close>

theorem append_frame:
  assumes "length (incidents w) = MAX_INCIDENTS"
    and "ReportedOk i \<in> set (fst (addIncident w a t tm))"
  shows "incidentCount (snd (addIncident w a t tm)) = incidentCount w + 1
       \<and> collection (snd (addIncident w a t tm)) =
           collection w @ [\<lparr>area = a, type = t, time = tm, id = i\<rparr>]
       \<and> incidents (snd (addIncident w a t tm)) ! incidentCount w =
           \<lparr>area = a, type = t, time = tm, id = i\<rparr>
       \<and> (\<forall>k < incidentCount w.
             incidents (snd (addIncident w a t tm)) ! k = incidents w ! k)"
proof -
  from assms(2) have room: "incidentCount w < MAX_INCIDENTS" and i: "i = getNextIncidentId w"
    by (simp_all add: reported_iff_room)
  have "incidentCount (snd (addIncident w a t tm)) = incidentCount w + 1"
    using room by (simp add: count_after_add)
  moreover have "collection (snd (addIncident w a t tm)) =
           collection w @ [\<lparr>area = a, type = t, time = tm, id = i\<rparr>]"
    unfolding i by (rule collection_after_add [OF room assms(1)])
  moreover have "incidents (snd (addIncident w a t tm)) ! incidentCount w =
           \<lparr>area = a, type = t, time = tm, id = i\<rparr>"
    using room assms(1) by (simp add: addIncident_room Let_def i)
  moreover have "\<forall>k < incidentCount w.
             incidents (snd (addIncident w a t tm)) ! k = incidents w ! k"
    using room by (simp add: addIncident_room Let_def)
  ultimately show ?thesis by blast
qed

text \<open>A third report after two.\<close>

theorem append_frame_witness:
  "incidentCount (snd (addIncident two_streets_world ''Elm Rd'' ''flooding'' ''06:05'')) = 3
   \<and> collection (snd (addIncident two_streets_world ''Elm Rd'' ''flooding'' ''06:05'')) =
       collection two_streets_world
         @ [\<lparr>area = ''Elm Rd'', type = ''flooding'', time = ''06:05'', id = 3\<rparr>]
   \<and> incidents (snd (addIncident two_streets_world ''Elm Rd'' ''flooding'' ''06:05'')) ! 2 =
       \<lparr>area = ''Elm Rd'', type = ''flooding'', time = ''06:05'', id = 3\<rparr>"
proof -
  have h: "length (incidents two_streets_world) = MAX_INCIDENTS"
    "ReportedOk 3 \<in> set (fst (addIncident two_streets_world ''Elm Rd'' ''flooding'' ''06:05''))"
    by code_simp+
  have c: "incidentCount two_streets_world = 2" by code_simp
  from append_frame [OF h] c show ?thesis by simp
qed

subsection \<open>C9: the new id is larger than every stored id\<close>

text \<open>
  Claim C9, for collections without the id \<^verbatim>\<open>INT_MAX\<close>. From any such state, with ids
  repeated, unordered or with gaps, the id a successful \<^verbatim>\<open>addIncident\<close> reports is
  strictly greater than every id in the collection, and it is the id of the record
  stored last.
\<close>

theorem new_id_exceeds_stored_ids:
  assumes "length (incidents w) = MAX_INCIDENTS"
    and "ReportedOk i \<in> set (fst (addIncident w a t tm))"
    and "\<forall>r\<in>set (collection w). sint (id r) < INT_MAX"
  shows "(\<forall>r\<in>set (collection w). sint (id r) < sint i)
       \<and> id (last (collection (snd (addIncident w a t tm)))) = i"
proof
  from assms(2) have room: "incidentCount w < MAX_INCIDENTS" and i: "i = getNextIncidentId w"
    by (simp_all add: reported_iff_room)
  show "\<forall>r\<in>set (collection w). sint (id r) < sint i"
  proof
    fix r assume "r \<in> set (collection w)"
    then have "sint (id r) \<le> sint (max_id_loop 0 (collection w))"
      by (rule max_id_loop_ge)
    then show "sint (id r) < sint i"
      unfolding i sint_next_id [OF assms(3)] by simp
  qed
  show "id (last (collection (snd (addIncident w a t tm)))) = i"
    by (simp add: collection_after_add [OF room assms(1)] i)
qed

text \<open>
  A store whose record has id 2147483647 loads; \<^verbatim>\<open>maxId + 1\<close> then wraps around and the
  next report gets the id \<open>- 2147483648\<close>, below the stored one.
\<close>

theorem new_id_exceeds_stored_ids_counterexample:
  "main_load (fresh_world\<lparr>data_file := Some max_id_file\<rparr>) = Inr max_id_world
   \<and> fst (addIncident max_id_world ''Oak Ave'' ''streetlight'' ''21:40'')
       = [ReportedOk (- 2147483648)]
   \<and> map (\<lambda>r. sint (id r))
       (collection (snd (addIncident max_id_world ''Oak Ave'' ''streetlight'' ''21:40'')))
       = [2147483647, - 2147483648]"
  by code_simp

text \<open>A loaded collection with ids 7, 3, 7; the next report gets 8.\<close>

theorem new_id_exceeds_stored_ids_witness:
  "main_load (fresh_world\<lparr>data_file := Some shuffled_ids_file\<rparr>) = Inr shuffled_ids_world
   \<and> map (\<lambda>r. sint (id r)) (collection shuffled_ids_world) = [7, 3, 7]
   \<and> list_all (\<lambda>r. sint (id r) < sint (8 :: c_int)) (collection shuffled_ids_world)
   \<and> id (last (collection (snd (addIncident shuffled_ids_world ''Mill Ln'' ''graffiti'' ''13:00''))))
       = 8"
proof -
  have h1: "length (incidents shuffled_ids_world) = MAX_INCIDENTS" by code_simp
  have h2: "ReportedOk 8 \<in> set (fst (addIncident shuffled_ids_world ''Mill Ln'' ''graffiti'' ''13:00''))"
    by code_simp
  have h3: "\<forall>r\<in>set (collection shuffled_ids_world). sint (id r) < INT_MAX" by code_simp
  have l: "main_load (fresh_world\<lparr>data_file := Some shuffled_ids_file\<rparr>) = Inr shuffled_ids_world"
    by code_simp
  have m: "map (\<lambda>r. sint (id r)) (collection shuffled_ids_world) = [7, 3, 7]" by code_simp
  from new_id_exceeds_stored_ids [OF h1 h2 h3] l m show ?thesis
    unfolding list_all_iff by blast
qed

subsection \<open>C10: what a load accepts\<close>

text \<open>
  Claim C10. Every record a load returns has a non-empty area, type and time. Beyond
  that nothing is checked: a store line written for any record that the format can
  carry, whatever its id and whatever the text of its time, is loaded as that record.
  The example store has a record with id 0 and one with id \<open>- 7\<close>, with the times
  \<^verbatim>\<open>whenever\<close> and \<^verbatim>\<open>25:99\<close>, which \<^verbatim>\<open>isValidTimeFormat\<close> rejects; both are loaded.
\<close>

theorem load_accepts_without_validation:
  assumes "length (incidents w) = MAX_INCIDENTS" and "loaded w = Inr recs"
  shows "(\<forall>r\<in>set recs. area r \<noteq> [] \<and> type r \<noteq> [] \<and> time r \<noteq> [])
       \<and> (storable x \<and> read_ok w \<longrightarrow>
            loaded (w\<lparr>data_file := Some (format_incident x)\<rparr>) = Inr [x])
       \<and> loaded (fresh_world\<lparr>data_file := Some unvalidated_file\<rparr>) = Inr unvalidated_records
       \<and> isValidTimeFormat ''whenever'' = Inr False
       \<and> isValidTimeFormat ''25:99'' = Inr False"
proof (intro conjI impI)
  from assms(2) obtain incs' n where
    ld: "readIncidentsFromFile w = Inr (incs', n)" and recs: "recs = take n incs'"
    by (auto simp: loaded_def split: sum.splits)
  show "\<forall>r\<in>set recs. area r \<noteq> [] \<and> type r \<noteq> [] \<and> time r \<noteq> []"
  proof (cases "fopen_r w")
    case None
    with ld recs show ?thesis by (simp add: readIncidentsFromFile_def)
  next
    case (Some f)
    with ld have "readLoop (incidents w) 0 f = Inr (incs', n)"
      by (simp add: readIncidentsFromFile_def)
    from readLoop_nonempty_fields [OF this assms(1)] recs show ?thesis by simp
  qed
next
  assume a: "storable x \<and> read_ok w"
  have e: "readLoop (incidents w) 0 [] = Inr (incidents w, 0)" by (rule readLoop_end)
  have z: "length (take 0 (incidents w)) < MAX_INCIDENTS" by (simp add: MAX_INCIDENTS_def)
  have x: "storable x" using a by simp
  have "readLoop (incidents w) 0 ([] @ format_incident x) = Inr ((incidents w)[0 := x], 0 + 1)"
    and "take (0 + 1) ((incidents w)[0 := x]) = take 0 (incidents w) @ [x]"
    by (rule loaded_after_line [OF assms(1) disjI1 [OF refl] e z x])+
  then show "loaded (w\<lparr>data_file := Some (format_incident x)\<rparr>) = Inr [x]"
    using a by (simp add: loaded_def readIncidentsFromFile_def fopen_r_def)
next
  show "loaded (fresh_world\<lparr>data_file := Some unvalidated_file\<rparr>) = Inr unvalidated_records"
    by code_simp
  show "isValidTimeFormat ''whenever'' = Inr False" by code_simp
  show "isValidTimeFormat ''25:99'' = Inr False" by code_simp
qed

text \<open>The example store, and its second record written and loaded on its own.\<close>

theorem load_accepts_without_validation_witness:
  "loaded (fresh_world\<lparr>data_file := Some unvalidated_file\<rparr>) = Inr unvalidated_records
   \<and> list_all (\<lambda>r. area r \<noteq> [] \<and> type r \<noteq> [] \<and> time r \<noteq> []) unvalidated_records
   \<and> map (\<lambda>r. sint (id r)) unvalidated_records = [0, - 7]
   \<and> loaded (fresh_world\<lparr>data_file := Some (format_incident (unvalidated_records ! 1))\<rparr>)
       = Inr [unvalidated_records ! 1]"
proof -
  let ?w = "fresh_world\<lparr>data_file := Some unvalidated_file\<rparr>"
  have h: "length (incidents ?w) = MAX_INCIDENTS" "loaded ?w = Inr unvalidated_records"
    by code_simp+
  have s: "storable (unvalidated_records ! 1)" "read_ok ?w" by code_simp+
  have m: "map (\<lambda>r. sint (id r)) unvalidated_records = [0, - 7]" by code_simp
  from load_accepts_without_validation [OF h, of "unvalidated_records ! 1"] s m
  show ?thesis unfolding list_all_iff by simp
qed

end
